theory Spec2Isabelle
  imports Main
begin

section \<open>Python strings\<close>

text \<open>
  A Python \<open>str\<close> is modelled as a \<open>string\<close> whose characters stand for the code points
  below 256 (Latin-1). The character classes below are the ones CPython uses on that range.
\<close>

definition isspace :: "char \<Rightarrow> bool" where
  \<comment> \<open>the separators of \<open>str.split()\<close> and \<open>str.strip()\<close>: TAB..CR, FS..US, space, NEL, NBSP\<close>
  "isspace c = (let n = (of_char c :: nat) in
     (9 \<le> n \<and> n \<le> 13) \<or> (28 \<le> n \<and> n \<le> 32) \<or> n = 133 \<or> n = 160)"

definition string_punctuation :: "char \<Rightarrow> bool" where
  \<comment> \<open>membership in \<open>string.punctuation\<close>: the 32 ASCII punctuation characters\<close>
  "string_punctuation c = (let n = (of_char c :: nat) in
     (33 \<le> n \<and> n \<le> 47) \<or> (58 \<le> n \<and> n \<le> 64) \<or> (91 \<le> n \<and> n \<le> 96) \<or> (123 \<le> n \<and> n \<le> 126))"

definition isalpha_char :: "char \<Rightarrow> bool" where
  \<comment> \<open>the letters (categories Lu, Ll, Lo) of the range\<close>
  "isalpha_char c = (let n = (of_char c :: nat) in
     (65 \<le> n \<and> n \<le> 90) \<or> (97 \<le> n \<and> n \<le> 122) \<or> n = 170 \<or> n = 181 \<or> n = 186 \<or>
     (192 \<le> n \<and> n \<le> 214) \<or> (216 \<le> n \<and> n \<le> 246) \<or> (248 \<le> n \<and> n \<le> 255))"

definition lower_char :: "char \<Rightarrow> char" where
  "lower_char c = (let n = (of_char c :: nat) in
     if (65 \<le> n \<and> n \<le> 90) \<or> (192 \<le> n \<and> n \<le> 214) \<or> (216 \<le> n \<and> n \<le> 222)
     then char_of (n + 32) else c)"

definition str_lower :: "string \<Rightarrow> string" where
  "str_lower s = map lower_char s"

definition str_strip :: "string \<Rightarrow> string" where
  "str_strip s = rev (dropWhile isspace (rev (dropWhile isspace s)))"

definition str_translate :: "(char \<Rightarrow> bool) \<Rightarrow> string \<Rightarrow> string" where
  \<comment> \<open>\<open>s.translate(str.maketrans('', '', deleted))\<close>: the characters of \<open>deleted\<close> are dropped\<close>
  "str_translate deleted s = filter (\<lambda>c. \<not> deleted c) s"

definition str_isalpha :: "string \<Rightarrow> bool" where
  "str_isalpha s = (s \<noteq> [] \<and> list_all isalpha_char s)"

text \<open>\<open>s.split()\<close>: the maximal runs of non-whitespace characters, in order.\<close>

fun split_from :: "string \<Rightarrow> string \<Rightarrow> string list" where
  "split_from w [] = (if w = [] then [] else [w])"
| "split_from w (c # cs) =
     (if isspace c then (if w = [] then split_from [] cs else w # split_from [] cs)
      else split_from (w @ [c]) cs)"

definition str_split :: "string \<Rightarrow> string list" where
  "str_split s = split_from [] s"

text \<open>\<open>s.split(sep, 1)\<close>: at most one split, at the first separator.\<close>

definition str_split_once :: "char \<Rightarrow> string \<Rightarrow> string list" where
  "str_split_once sep s =
     (case dropWhile (\<lambda>c. c \<noteq> sep) s of
        [] \<Rightarrow> [s]
      | _ # rest \<Rightarrow> [takeWhile (\<lambda>c. c \<noteq> sep) s, rest])"

text \<open>\<open>sep.join(ws)\<close>.\<close>

fun str_join :: "string \<Rightarrow> string list \<Rightarrow> string" where
  "str_join sep [] = []"
| "str_join sep [w] = w"
| "str_join sep (w # v # ws) = w @ sep @ str_join sep (v # ws)"

section \<open>Python dictionaries\<close>

text \<open>
  A \<open>dict\<close> keeps its keys in insertion order: it is an association list, read with
  \<open>map_of\<close> and written with \<open>dict_set\<close>, which replaces the value of a key in place and
  puts a new key last.
\<close>

type_synonym ('k, 'v) dict = "('k \<times> 'v) list"

fun dict_set :: "'k \<Rightarrow> 'v \<Rightarrow> ('k, 'v) dict \<Rightarrow> ('k, 'v) dict" where
  "dict_set k v [] = [(k, v)]"
| "dict_set k v ((k', v') # d) =
     (if k' = k then (k, v) # d else (k', v') # dict_set k v d)"

type_synonym descriptions = "(string, string list) dict"

section \<open>data\_loader.py\<close>

text \<open>
  What \<open>open(self.captions_filepath, 'r')\<close> and the iteration over the file give: the
  file is missing, reading it raises some other exception, or it yields its lines.
\<close>

datatype captions_source =
    FileNotFound
  | ReadFails string
  | FileLines "string list"

record data_loader =
  captions_filepath :: string
  images_dir :: string
  max_description_length :: nat

text \<open>
  The body of the loop over the lines after the header. \<open>image_exists image_id\<close> stands for
  \<open>os.path.exists(os.path.join(self.images_dir, image_id))\<close>.
\<close>

definition load_line :: "(string \<Rightarrow> bool) \<Rightarrow> string \<Rightarrow> descriptions \<Rightarrow> descriptions" where
  "load_line image_exists line mapping =
     (let parts = str_split_once CHR '','' (str_strip line) in
      if length parts < 2 then mapping
      else
        let image_id = str_strip (parts ! 0);
            description = str_strip (parts ! 1)
        in if \<not> image_exists image_id then mapping
           else dict_set image_id
                  ((case map_of mapping image_id of None \<Rightarrow> [] | Some l \<Rightarrow> l) @ [description])
                  mapping)"

definition load_descriptions ::
  "data_loader \<Rightarrow> captions_source \<Rightarrow> (string \<Rightarrow> bool) \<Rightarrow> descriptions \<times> string list" where
  \<comment> \<open>the mapping returned, and the lines printed\<close>
  "load_descriptions self source image_exists =
     (case source of
        FileNotFound \<Rightarrow>
          ([], [''Error: Captions file not found at '' @ captions_filepath self])
      | ReadFails e \<Rightarrow> ([], [''Error loading descriptions: '' @ e])
      | FileLines [] \<Rightarrow> ([], [''Error loading descriptions: ''])
      | FileLines (header # lines) \<Rightarrow>
          (fold (load_line image_exists) lines [], []))"

text \<open>The body of the inner loop of \<open>clean_descriptions\<close>, for one caption.\<close>

definition clean_desc :: "string \<Rightarrow> string" where
  "clean_desc desc =
     str_join '' ''
       (filter str_isalpha
          (map (str_translate string_punctuation)
             (map str_lower (str_split desc))))"

definition clean_descriptions :: "descriptions \<Rightarrow> descriptions" where
  "clean_descriptions descriptions =
     fold (\<lambda>(image_id, desc_list) cleaned_descriptions.
             dict_set image_id (map clean_desc desc_list) cleaned_descriptions)
          descriptions []"

definition descriptions_to_lines :: "descriptions \<Rightarrow> string list" where
  "descriptions_to_lines descriptions =
     concat (map (\<lambda>img_id.
                    map (\<lambda>desc. ''startseq '' @ desc @ '' endseq'')
                        (case map_of descriptions img_id of None \<Rightarrow> [] | Some l \<Rightarrow> l))
                 (map fst descriptions))"

definition to_vocabulary :: "descriptions \<Rightarrow> string set" where
  "to_vocabulary descriptions =
     fold (\<lambda>line vocabulary. fold insert (str_split line) vocabulary)
          (descriptions_to_lines descriptions) {}"

text \<open>Python's \<open>max\<close> over a non-empty sequence of numbers.\<close>

fun py_max :: "nat list \<Rightarrow> nat" where
  "py_max [] = 0"
| "py_max (x # xs) = fold max xs x"

definition max_len :: "data_loader \<Rightarrow> descriptions \<Rightarrow> nat \<times> data_loader" where
  \<comment> \<open>the value returned, and the loader with its attribute set\<close>
  "max_len self descriptions =
     (let all_desc_lines = descriptions_to_lines descriptions;
          m = (if all_desc_lines \<noteq> [] then py_max (map (\<lambda>s. length (str_split s)) all_desc_lines)
               else 0)
      in (m, self\<lparr>max_description_length := m\<rparr>))"

section \<open>Keras preprocessing, as main.py calls it\<close>

datatype py_error = KeyError | IndexError | ValueError | StopIteration

text \<open>\<open>s.split(sep)\<close> for a one-character separator: empty parts are kept.\<close>

fun str_split_sep :: "char \<Rightarrow> string \<Rightarrow> string list" where
  "str_split_sep sep [] = [[]]"
| "str_split_sep sep (c # cs) =
     (if c = sep then [] # str_split_sep sep cs
      else (case str_split_sep sep cs of [] \<Rightarrow> [[c]] | p # ps \<Rightarrow> (c # p) # ps))"

definition keras_filters :: "char \<Rightarrow> bool" where
  \<comment> \<open>the default \<open>filters\<close> of \<open>Tokenizer\<close>: \<open>string.punctuation\<close> without the apostrophe, TAB, newline\<close>
  "keras_filters c = (let n = (of_char c :: nat) in
     (string_punctuation c \<and> n \<noteq> 39) \<or> n = 9 \<or> n = 10)"

definition text_to_word_sequence :: "string \<Rightarrow> string list" where
  \<comment> \<open>\<open>lower=True\<close>, \<open>split=' '\<close>: lower case, filtered characters become spaces, empty parts go\<close>
  "text_to_word_sequence input_text =
     filter (\<lambda>i. i \<noteq> [])
       (str_split_sep CHR '' ''
          (map (\<lambda>c. if keras_filters c then CHR '' '' else c) (str_lower input_text)))"

record tokenizer =
  word_index :: "(string, nat) dict"
  index_word :: "(nat, string) dict"

definition count_word :: "string \<Rightarrow> (string, nat) dict \<Rightarrow> (string, nat) dict" where
  "count_word w word_counts =
     dict_set w (case map_of word_counts w of None \<Rightarrow> 1 | Some n \<Rightarrow> n + 1) word_counts"

definition fit_on_texts :: "string list \<Rightarrow> tokenizer" where
  \<comment> \<open>words numbered from 1 by decreasing count, ties in order of first occurrence (a stable sort)\<close>
  "fit_on_texts texts =
     (let word_counts = fold (\<lambda>text wc. fold count_word (text_to_word_sequence text) wc) texts [];
          wcounts = sort_key (\<lambda>x. - int (snd x)) word_counts;
          sorted_voc = map fst wcounts;
          wi = zip sorted_voc [1 ..< length sorted_voc + 1]
      in \<lparr>word_index = wi, index_word = map (\<lambda>(w, c). (c, w)) wi\<rparr>)"

definition texts_to_sequences :: "tokenizer \<Rightarrow> string \<Rightarrow> nat list" where
  \<comment> \<open>\<open>tokenizer.texts_to_sequences([text])[0]\<close>; no \<open>oov_token\<close>, so unknown words are left out\<close>
  "texts_to_sequences tok text =
     concat (map (\<lambda>w. case map_of (word_index tok) w of None \<Rightarrow> [] | Some i \<Rightarrow> [i])
                 (text_to_word_sequence text))"

definition pad_sequences :: "nat list \<Rightarrow> nat \<Rightarrow> py_error + nat list" where
  \<comment> \<open>\<open>pad_sequences([s], maxlen=maxlen)[0]\<close>, padding and truncating \<open>'pre'\<close>. With
      \<open>maxlen = 0\<close> the slice \<open>s[-0:]\<close> is all of a non-empty \<open>s\<close>, assigned to an empty row:
      one element broadcasts into it, more raise\<close>
  "pad_sequences s maxlen =
     (if s = [] then Inr (replicate maxlen 0)
      else if maxlen = 0 then (if length s = 1 then Inr [] else Inl ValueError)
      else Inr (replicate (maxlen - length s) 0 @ drop (length s - maxlen) s))"

definition to_categorical :: "nat \<Rightarrow> nat \<Rightarrow> py_error + nat list" where
  \<comment> \<open>\<open>to_categorical([y], num_classes=num_classes)[0]\<close>\<close>
  "to_categorical y num_classes =
     (let n = (if num_classes = 0 then y + 1 else num_classes)
      in if y < n then Inr ((replicate n 0)[y := 1]) else Inl IndexError)"

section \<open>main.py: the training example generator\<close>

text \<open>A loop whose body may raise: the results up to the first exception, which ends it.\<close>

fun collect :: "('e + 'a) list \<Rightarrow> 'e + 'a list" where
  "collect [] = Inr []"
| "collect (Inl e # rs) = Inl e"
| "collect (Inr x # rs) = (case collect rs of Inl e \<Rightarrow> Inl e | Inr xs \<Rightarrow> Inr (x # xs))"

type_synonym 'f triple = "'f \<times> nat list \<times> nat list"

definition caption_triples ::
  "tokenizer \<Rightarrow> nat \<Rightarrow> nat \<Rightarrow> 'f \<Rightarrow> string \<Rightarrow> py_error + 'f triple list" where
  \<comment> \<open>the body of \<open>for desc_line in desc_lines\<close>: what it appends to \<open>X1\<close>, \<open>X2\<close>, \<open>y\<close>\<close>
  "caption_triples tok max_length vocab_size img_features desc_line =
     (let seq = texts_to_sequences tok desc_line
      in collect
           (map (\<lambda>i. case pad_sequences (take i seq) max_length of
                        Inl e \<Rightarrow> Inl e
                      | Inr in_seq \<Rightarrow>
                          (case to_categorical (seq ! i) vocab_size of
                             Inl e \<Rightarrow> Inl e
                           | Inr out_seq \<Rightarrow> Inr (img_features, in_seq, out_seq)))
                [1 ..< length seq]))"

definition image_triples ::
  "(string, string list) dict \<Rightarrow> (string \<rightharpoonup> 'f) \<Rightarrow> tokenizer \<Rightarrow> nat \<Rightarrow> nat \<Rightarrow> string
     \<Rightarrow> py_error + 'f triple list" where
  \<comment> \<open>the body of \<open>for img_id in batch_image_ids\<close>\<close>
  "image_triples descriptions_for_gen features tok max_length vocab_size img_id =
     (case map_of descriptions_for_gen img_id of
        None \<Rightarrow> Inl KeyError
      | Some desc_lines \<Rightarrow>
          (case features img_id of
             None \<Rightarrow> Inl KeyError
           | Some img_features \<Rightarrow>
               (case collect (map (caption_triples tok max_length vocab_size img_features) desc_lines) of
                  Inl e \<Rightarrow> Inl e
                | Inr tss \<Rightarrow> Inr (concat tss))))"

definition batch_triples ::
  "(string, string list) dict \<Rightarrow> (string \<rightharpoonup> 'f) \<Rightarrow> tokenizer \<Rightarrow> nat \<Rightarrow> nat \<Rightarrow> string list
     \<Rightarrow> py_error + 'f triple list" where
  \<comment> \<open>one batch: the triples of the images of \<open>batch_image_ids\<close>, in order\<close>
  "batch_triples descriptions_for_gen features tok max_length vocab_size batch_image_ids =
     (case collect (map (image_triples descriptions_for_gen features tok max_length vocab_size)
                        batch_image_ids) of
        Inl e \<Rightarrow> Inl e
      | Inr tss \<Rightarrow> Inr (concat tss))"

text \<open>
  \<open>image_ids_batch[i:i+batch_size] for i in range(0, len(image_ids_batch), batch_size)\<close>, for
  a positive \<open>batch_size\<close>; the counter bounds the number of slices.
\<close>

fun slices :: "nat \<Rightarrow> nat \<Rightarrow> 'a list \<Rightarrow> 'a list list" where
  "slices 0 batch_size xs = []"
| "slices (Suc k) batch_size xs =
     (if xs = [] then [] else take batch_size xs # slices k batch_size (drop batch_size xs))"

text \<open>
  One run of the \<open>for\<close> loop under \<open>while True\<close>, over the slices of image ids: the batches it
  yields in order (a batch is yielded when it is not empty), and the exception that ends the run,
  if one is raised (nothing of the batch under construction is yielded then).
\<close>

fun pass_batches ::
  "(string list \<Rightarrow> py_error + 'f triple list) \<Rightarrow> string list list
     \<Rightarrow> 'f triple list list \<times> py_error option" where
  "pass_batches batch [] = ([], None)"
| "pass_batches batch (batch_image_ids # rest) =
     (case batch batch_image_ids of
        Inl e \<Rightarrow> ([], Some e)
      | Inr b \<Rightarrow>
          (let (yielded, raised) = pass_batches batch rest
           in ((if b \<noteq> [] then [b] else []) @ yielded, raised)))"

definition data_generator_pass ::
  "nat \<Rightarrow> (string, string list) dict \<Rightarrow> (string \<rightharpoonup> 'f) \<Rightarrow> tokenizer \<Rightarrow> nat \<Rightarrow> nat \<Rightarrow> string list
     \<Rightarrow> 'f triple list list \<times> py_error option" where
  \<comment> \<open>\<open>range\<close> raises on a step of 0; \<open>batch_size\<close> is a natural number here (with a negative
      step the range is empty and the generator never yields)\<close>
  "data_generator_pass batch_size descriptions_for_gen features tok max_length vocab_size image_ids_batch =
     (if batch_size = 0 then ([], Some ValueError)
      else pass_batches (batch_triples descriptions_for_gen features tok max_length vocab_size)
             (slices (length image_ids_batch) batch_size image_ids_batch))"

text \<open>
  The generator itself: what the \<open>j\<close>-th \<open>next\<close> on it gives, counting from 0. Every run of the
  loop under \<open>while True\<close> computes the same batches, so a generator that raises nothing yields
  the batches of one run over and over; \<open>None\<close> stands for a generator that loops without ever
  yielding. After an exception the generator is finished.
\<close>

definition data_generator ::
  "nat \<Rightarrow> (string, string list) dict \<Rightarrow> (string \<rightharpoonup> 'f) \<Rightarrow> tokenizer \<Rightarrow> nat \<Rightarrow> nat \<Rightarrow> string list
     \<Rightarrow> nat \<Rightarrow> (py_error + 'f triple list) option" where
  "data_generator batch_size descriptions_for_gen features tok max_length vocab_size image_ids_batch j =
     (case data_generator_pass batch_size descriptions_for_gen features tok max_length vocab_size
             image_ids_batch of
        (yielded, Some e) \<Rightarrow>
          (if j < length yielded then Some (Inr (yielded ! j))
           else if j = length yielded then Some (Inl e)
           else Some (Inl StopIteration))
      | (yielded, None) \<Rightarrow>
          (if yielded = [] then None else Some (Inr (yielded ! (j mod length yielded)))))"

section \<open>main.py: greedy decoding\<close>

text \<open>
  The loop of \<open>generate_caption\<close>, by the number of iterations \<open>range(max_length)\<close> has left.
  \<open>predict sequence\<close> stands for \<open>np.argmax(model.predict([photo_features, sequence]))\<close>.
  Beside \<open>in_text\<close> the model returns the indices predicted so far, one per call of
  \<open>model.predict\<close>, in order.
\<close>

fun decode_loop ::
  "(nat list \<Rightarrow> nat) \<Rightarrow> tokenizer \<Rightarrow> nat \<Rightarrow> nat \<Rightarrow> string \<Rightarrow> nat list
     \<Rightarrow> py_error + string \<times> nat list" where
  "decode_loop predict tok max_length 0 in_text predicted = Inr (in_text, predicted)"
| "decode_loop predict tok max_length (Suc k) in_text predicted =
     (case pad_sequences (texts_to_sequences tok in_text) max_length of
        Inl e \<Rightarrow> Inl e
      | Inr sequence \<Rightarrow>
          (let yhat = predict sequence in
           case map_of (index_word tok) yhat of
             None \<Rightarrow> Inr (in_text, predicted @ [yhat])
           | Some word \<Rightarrow>
               if word = ''endseq'' then Inr (in_text @ '' '' @ word, predicted @ [yhat])
               else decode_loop predict tok max_length k (in_text @ '' '' @ word) (predicted @ [yhat])))"

definition generate_caption ::
  "('f \<Rightarrow> nat list \<Rightarrow> nat) \<Rightarrow> tokenizer \<Rightarrow> 'f \<Rightarrow> nat \<Rightarrow> py_error + string \<times> nat list" where
  "generate_caption model tok photo_features max_length =
     decode_loop (model photo_features) tok max_length max_length ''startseq'' []"

text \<open>\<open>s.replace(old, new)\<close> for a non-empty \<open>old\<close>: left to right, without overlaps.\<close>

fun replace_from :: "nat \<Rightarrow> string \<Rightarrow> string \<Rightarrow> string \<Rightarrow> string" where
  "replace_from skip old new [] = []"
| "replace_from skip old new (c # cs) =
     (if 0 < skip then replace_from (skip - 1) old new cs
      else if take (length old) (c # cs) = old then new @ replace_from (length old - 1) old new cs
      else c # replace_from 0 old new cs)"

definition str_replace :: "string \<Rightarrow> string \<Rightarrow> string \<Rightarrow> string" where
  "str_replace old new s = replace_from 0 old new s"

section \<open>main.py: the predict path\<close>

text \<open>
  What \<open>predict_caption\<close> finds outside the program: which files exist, and what each
  library call on them gives (\<open>Inl\<close>: it raises).
\<close>

record 'f predict_env =
  model_path :: string
  tokenizer_path :: string
  max_length_path :: string
  model_path_exists :: bool
  tokenizer_path_exists :: bool
  max_length_path_exists :: bool
  features_path_exists :: bool
  pickles :: "string + tokenizer option \<times> nat option"
  load_weights :: "string option"
  image_path_exists :: bool
  image_feature :: "string + 'f"

definition feature_extractor :: "string \<Rightarrow> py_error + nat" where
  \<comment> \<open>\<open>FeatureExtractor(model_name)\<close>: its output dimension, or the \<open>ValueError\<close> it raises\<close>
  "feature_extractor model_name =
     (if str_lower model_name = ''vgg16'' then Inr 4096
      else if str_lower model_name = ''resnet50'' then Inr 2048
      else Inl ValueError)"

definition predict_caption ::
  "'f predict_env \<Rightarrow> ('f \<Rightarrow> nat list \<Rightarrow> nat) \<Rightarrow> string \<Rightarrow> string
     \<Rightarrow> py_error + string list \<times> string option" where
  \<comment> \<open>the lines printed and the caption shown, if one is generated; \<open>model\<close> is the decoder
      rebuilt by \<open>create_model\<close> with the loaded weights\<close>
  "predict_caption env model image_path feature_model_name =
     (let out = [''--- Predicting Caption (Feature Model: '' @ feature_model_name @ '') ---''] in
      if \<not> model_path_exists env then
        Inr (out @ [''Error: Model not found at '' @ model_path env
                      @ ''. Please train the model first.''], None)
      else if \<not> tokenizer_path_exists env then
        Inr (out @ [''Error: Tokenizer not found at '' @ tokenizer_path env
                      @ ''. Please train the model first.''], None)
      else if \<not> max_length_path_exists env then
        Inr (out @ [''Error: Max length not found at '' @ max_length_path env
                      @ ''. Please train the model first.''], None)
      else case pickles env of
        Inl e \<Rightarrow> Inr (out @ [''Error loading tokenizer or max_length: '' @ e], None)
      | Inr (tokenizer, max_length) \<Rightarrow>
          (case feature_extractor feature_model_name of
             Inl e \<Rightarrow> Inl e
           | Inr feature_dim \<Rightarrow>
               (case (tokenizer, max_length) of
                  (Some tok, Some max_length) \<Rightarrow>
                    (case load_weights env of
                       Some e \<Rightarrow>
                         Inr (out @ [''Error loading model weights from '' @ model_path env @ '': '' @ e,
                               ''This might indicate an incompatibility or corruption. Training and saving again might help.''],
                              None)
                     | None \<Rightarrow>
                         (let out = out @ [''Model weights loaded successfully.''] in
                          if \<not> image_path_exists env then
                            Inr (out @ [''Error: Image not found at '' @ image_path], None)
                          else case image_feature env of
                            Inl e \<Rightarrow>
                              Inr (out @ [''Error processing input image '' @ image_path @ '': '' @ e], None)
                          | Inr feature \<Rightarrow>
                              (case generate_caption model tok feature max_length of
                                 Inl e \<Rightarrow> Inl e
                               | Inr (caption, predicted) \<Rightarrow>
                                   (let final_caption =
                                          str_replace '' endseq'' [] (str_replace ''startseq '' [] caption)
                                    in Inr (out @ [''Generated Caption: '' @ final_caption],
                                            Some final_caption)))))
                | _ \<Rightarrow>
                    Inr (out @ [''Error: Tokenizer or max_length could not be loaded, cannot recreate model.''],
                         None))))"

section \<open>main.py: the train path\<close>

text \<open>Decimal digits of a number, as an f-string prints it.\<close>

fun str_of_nat :: "nat \<Rightarrow> string" where
  "str_of_nat n =
     (if n < 10 then [char_of (48 + n)] else str_of_nat (n div 10) @ [char_of (48 + n mod 10)])"

record train_data =
  td_descriptions :: "(string, string list) dict"
  td_image_ids :: "string list"
  td_tokenizer :: tokenizer
  td_max_length :: nat
  td_vocab_size :: nat

text \<open>
  \<open>train_model\<close> from \<open># Load data\<close> to the emptiness check: the lines printed, and what
  the generator is then built from (\<open>None\<close>: the function has returned). \<open>all_features\<close> is the
  embedding cache that the first part of the function has extracted or unpickled.
\<close>

definition train_model_data ::
  "data_loader \<Rightarrow> captions_source \<Rightarrow> (string \<Rightarrow> bool) \<Rightarrow> (string \<rightharpoonup> 'f)
     \<Rightarrow> string list \<times> train_data option" where
  "train_model_data loader source image_exists all_features =
     (let (descriptions, out) = load_descriptions loader source image_exists;
          cleaned_descriptions_raw = clean_descriptions descriptions;
          all_desc_lines_with_tokens = descriptions_to_lines cleaned_descriptions_raw;
          tok = fit_on_texts all_desc_lines_with_tokens;
          vocab_size = length (word_index tok) + 1;
          out = out @ [''Tokenizer Vocabulary Size: '' @ str_of_nat vocab_size];
          (max_length, loader) = max_len loader cleaned_descriptions_raw;
          out = out @ [''Max Description Length: '' @ str_of_nat max_length,
                       ''Tokenizer and max_length saved.''];
          filtered_descriptions_for_generator =
            fold (\<lambda>(img_id, desc_list) filtered.
                    if all_features img_id \<noteq> None
                    then dict_set img_id (descriptions_to_lines [(img_id, desc_list)]) filtered
                    else filtered)
                 cleaned_descriptions_raw []
      in if filtered_descriptions_for_generator = [] then
           (out @ [''No matching image features found for descriptions. Training aborted.''], None)
         else
           (out,
            Some \<lparr>td_descriptions = filtered_descriptions_for_generator,
                  td_image_ids = map fst filtered_descriptions_for_generator,
                  td_tokenizer = tok,
                  td_max_length = max_length,
                  td_vocab_size = vocab_size\<rparr>))"

text \<open>
  A predict-time environment for examples: every call succeeds, the pickled vocabulary has the
  two markers and one word, the pickled max length is 3; the arguments say which of the model
  file, the vocabulary file, the max length file and the embedding cache exist.
\<close>

definition example_env :: "bool \<Rightarrow> bool \<Rightarrow> bool \<Rightarrow> bool \<Rightarrow> unit predict_env" where
  "example_env m t l c =
     \<lparr>model_path = ''models/image_captioning_model.h5'',
      tokenizer_path = ''models/tokenizer.pkl'',
      max_length_path = ''models/max_length.pkl'',
      model_path_exists = m, tokenizer_path_exists = t, max_length_path_exists = l,
      features_path_exists = c,
      pickles = Inr (Some \<lparr>word_index = [(''startseq'', 1), (''endseq'', 2), (''a'', 3)],
                           index_word = [(1, ''startseq''), (2, ''endseq''), (3, ''a'')]\<rparr>, Some 3),
      load_weights = None, image_path_exists = True, image_feature = Inr ()\<rparr>"

section \<open>The training examples in the spec's words\<close>

text \<open>
  For a caption encoded as the index sequence \<open>seq\<close>: for every prefix length \<open>i\<close> from 1 to
  the length of \<open>seq\<close> minus 1, the triple of the image's embedding, the prefix of length \<open>i\<close>
  left-padded with zeros to the max length, and the one-hot vector over the vocabulary of the
  index at position \<open>i\<close>, the one that follows the prefix.
\<close>

definition spec_caption_triples :: "'f \<Rightarrow> nat \<Rightarrow> nat \<Rightarrow> nat list \<Rightarrow> 'f triple list" where
  "spec_caption_triples embedding max_length vocab_size seq =
     map (\<lambda>i. (embedding,
               replicate (max_length - i) 0 @ take i seq,
               (replicate vocab_size 0)[seq ! i := 1]))
         [1 ..< length seq]"

text \<open>For an image: the triples of its framed captions, in order (none without an embedding).\<close>

definition spec_image_triples ::
  "(string, string list) dict \<Rightarrow> (string \<rightharpoonup> 'f) \<Rightarrow> tokenizer \<Rightarrow> nat \<Rightarrow> nat \<Rightarrow> string
     \<Rightarrow> 'f triple list" where
  "spec_image_triples descriptions_for_gen features tok max_length vocab_size img_id =
     (case features img_id of
        None \<Rightarrow> []
      | Some embedding \<Rightarrow>
          concat (map (\<lambda>desc_line. spec_caption_triples embedding max_length vocab_size
                                     (texts_to_sequences tok desc_line))
                      (case map_of descriptions_for_gen img_id of None \<Rightarrow> [] | Some ls \<Rightarrow> ls)))"

section \<open>Auxiliary notions\<close>

text \<open>
  The normalised mapping of the train path, and the mapping it is filtered to for the generator,
  as plain list operations.
\<close>

definition train_cleaned :: "data_loader \<Rightarrow> captions_source \<Rightarrow> (string \<Rightarrow> bool) \<Rightarrow> descriptions" where
  "train_cleaned loader source ex = clean_descriptions (fst (load_descriptions loader source ex))"

definition train_filtered ::
  "data_loader \<Rightarrow> captions_source \<Rightarrow> (string \<Rightarrow> bool) \<Rightarrow> (string \<rightharpoonup> 'f) \<Rightarrow> (string, string list) dict" where
  "train_filtered loader source ex all_features =
     map (\<lambda>(k, l). (k, map (\<lambda>desc. ''startseq '' @ desc @ '' endseq'') l))
         (filter (\<lambda>(k, l). all_features k \<noteq> None) (train_cleaned loader source ex))"

text \<open>A character of a normalised, framed caption: a space, or a letter that is its own lower case.\<close>

definition plain_char :: "char \<Rightarrow> bool" where
  "plain_char c = (c = CHR '' '' \<or> (isalpha_char c \<and> lower_char c = c))"

text \<open>A word that normalisation keeps: alphabetic and already in lower case.\<close>

definition normal_word :: "string \<Rightarrow> bool" where
  "normal_word w = (str_isalpha w \<and> str_lower w = w)"

section \<open>data\_loader.py: clean\_descriptions on a store of objects\<close>

text \<open>
  Python hands the mapping and its lists over by reference. To say what \<open>clean_descriptions\<close>
  does to its argument, the function is modelled a second time on an explicit store: a list of
  objects, an object's address being its index, and allocation appending a new object. A dict
  holds the addresses of its values; a list holds strings, which are immutable values.
\<close>

datatype py_object = DictObject "(string \<times> nat) list" | ListObject "string list"

type_synonym store = "py_object list"

datatype store_error =
    AttributeError \<comment> \<open>\<open>descriptions.items()\<close> on an object that is not a dict\<close>
  | BadAddress \<comment> \<open>an address outside the store: not a state of a Python program\<close>

definition obj_at :: "store \<Rightarrow> nat \<Rightarrow> py_object option" where
  "obj_at h a = (if a < length h then Some (h ! a) else None)"

definition alloc :: "py_object \<Rightarrow> store \<Rightarrow> store \<times> nat" where
  "alloc obj h = (h @ [obj], length h)"

text \<open>What \<open>for x in obj\<close> goes through: the elements of a list, the keys of a dict.\<close>

fun object_iter :: "py_object \<Rightarrow> string list" where
  "object_iter (ListObject xs) = xs"
| "object_iter (DictObject items) = map fst items"

definition list_append :: "nat \<Rightarrow> string \<Rightarrow> store \<Rightarrow> store" where
  \<comment> \<open>\<open>cleaned_list.append(x)\<close>\<close>
  "list_append a x h =
     (case obj_at h a of Some (ListObject xs) \<Rightarrow> h[a := ListObject (xs @ [x])] | _ \<Rightarrow> h)"

definition dict_store :: "nat \<Rightarrow> string \<Rightarrow> nat \<Rightarrow> store \<Rightarrow> store" where
  \<comment> \<open>\<open>cleaned_descriptions[image_id] = cleaned_list\<close>\<close>
  "dict_store d k a h =
     (case obj_at h d of Some (DictObject items) \<Rightarrow> h[d := DictObject (dict_set k a items)] | _ \<Rightarrow> h)"

text \<open>
  The inner loop, over the captions of one image, and the outer loop, over the items of the
  mapping. The writes are those of the source: \<open>cleaned_list.append\<close> and the assignment to
  \<open>cleaned_descriptions[image_id]\<close>. Each loop goes through the elements its object had when
  the loop began; the object it goes through is never one of the two that the body writes to
  (both are allocated by the call), so these are the elements that Python's iterator reads.
\<close>

fun clean_list_loop :: "nat \<Rightarrow> string list \<Rightarrow> store \<Rightarrow> store" where
  "clean_list_loop cleaned_list [] h = h"
| "clean_list_loop cleaned_list (desc # rest) h =
     clean_list_loop cleaned_list rest (list_append cleaned_list (clean_desc desc) h)"

fun clean_items_loop :: "nat \<Rightarrow> (string \<times> nat) list \<Rightarrow> store \<Rightarrow> store_error + store" where
  "clean_items_loop cleaned_descriptions [] h = Inr h"
| "clean_items_loop cleaned_descriptions ((image_id, desc_list) # rest) h =
     (case obj_at h desc_list of
        None \<Rightarrow> Inl BadAddress
      | Some obj \<Rightarrow>
          (let (h, cleaned_list) = alloc (ListObject []) h;
               h = clean_list_loop cleaned_list (object_iter obj) h;
               h = dict_store cleaned_descriptions image_id cleaned_list h
           in clean_items_loop cleaned_descriptions rest h))"

definition clean_descriptions_store :: "store \<Rightarrow> nat \<Rightarrow> store_error + store \<times> nat" where
  \<comment> \<open>the store after the call, and the address returned\<close>
  "clean_descriptions_store h descriptions =
     (case obj_at h descriptions of
        None \<Rightarrow> Inl BadAddress
      | Some (ListObject xs) \<Rightarrow> Inl AttributeError
      | Some (DictObject items) \<Rightarrow>
          (let (h, cleaned_descriptions) = alloc (DictObject []) h
           in case clean_items_loop cleaned_descriptions items h of
                Inl e \<Rightarrow> Inl e
              | Inr h \<Rightarrow> Inr (h, cleaned_descriptions)))"

text \<open>
  The mapping that a dict of the store stands for, when the object at the address is a dict
  whose values are in the store.
\<close>

definition read_item :: "store \<Rightarrow> string \<times> nat \<Rightarrow> string \<times> string list" where
  "read_item h ka = (fst ka, object_iter (h ! snd ka))"

definition read_mapping :: "store \<Rightarrow> nat \<Rightarrow> descriptions option" where
  "read_mapping h d =
     (case obj_at h d of
        Some (DictObject items) \<Rightarrow>
          (if list_all (\<lambda>ka. snd ka < length h) items then Some (map (read_item h) items) else None)
      | _ \<Rightarrow> None)"

section \<open>Strings and dictionaries: auxiliary facts\<close>


lemma isspace_space: "isspace CHR '' ''" by (simp add: isspace_def)

lemma split_from_nospace:
  "\<forall>c\<in>set u. \<not> isspace c \<Longrightarrow> split_from w (u @ s) = split_from (w @ u) s"
  by (induction u arbitrary: w) auto

lemma split_from_join:
  "\<forall>w\<in>set ws. w \<noteq> [] \<and> (\<forall>c\<in>set w. \<not> isspace c) \<Longrightarrow> split_from [] (str_join '' '' ws) = ws"
proof (induction "'' ''" ws rule: str_join.induct)
  case 1
  then show ?case by simp
next
  case (2 w)
  then have "split_from [] (w @ []) = split_from ([] @ w) []"
    by (intro split_from_nospace) simp
  with 2 show ?case by simp
next
  case (3 w v ws)
  have "split_from [] (w @ ('' '' @ str_join '' '' (v # ws))) = split_from ([] @ w) ('' '' @ str_join '' '' (v # ws))"
    by (intro split_from_nospace) (use 3 in simp)
  with 3 show ?case by (simp add: isspace_space)
qed

lemma isalpha_not_space: "isalpha_char c \<Longrightarrow> \<not> isspace c"
  by (auto simp: isalpha_char_def isspace_def Let_def)

lemma isalpha_not_punct: "isalpha_char c \<Longrightarrow> \<not> string_punctuation c"
  by (auto simp: isalpha_char_def string_punctuation_def Let_def)

lemma lower_char_idem: "lower_char (lower_char c) = lower_char c"
  by (auto simp: lower_char_def Let_def)


lemma normal_word_fix:
  assumes "normal_word w"
  shows "str_translate string_punctuation (str_lower w) = w"
proof -
  from assms have a: "list_all isalpha_char w" and l: "str_lower w = w"
    by (simp_all add: normal_word_def str_isalpha_def)
  from a have "filter (\<lambda>c. \<not> string_punctuation c) w = w"
    by (induction w) (auto dest: isalpha_not_punct)
  with l show ?thesis by (simp add: str_translate_def)
qed

lemma translate_lower_normal:
  assumes "str_isalpha (str_translate string_punctuation (str_lower v))"
  shows "normal_word (str_translate string_punctuation (str_lower v))"
proof -
  have "map lower_char (filter (\<lambda>c. \<not> string_punctuation c) (map lower_char v))
        = filter (\<lambda>c. \<not> string_punctuation c) (map lower_char v)"
    by (induction v) (simp_all add: lower_char_idem)
  with assms show ?thesis
    by (simp add: normal_word_def str_translate_def str_lower_def)
qed

lemma normal_word_split_ok: "normal_word w \<Longrightarrow> w \<noteq> [] \<and> (\<forall>c\<in>set w. \<not> isspace c)"
  by (auto simp: normal_word_def str_isalpha_def list_all_iff dest: isalpha_not_space)

lemma clean_words_normal:
  "\<forall>w \<in> set (filter str_isalpha (map (str_translate string_punctuation) (map str_lower vs))). normal_word w"
  by (auto intro: translate_lower_normal)

lemma clean_join_normal:
  assumes "\<forall>w\<in>set ws. normal_word w"
  shows "clean_desc (str_join '' '' ws) = str_join '' '' ws"
proof -
  from assms have "str_split (str_join '' '' ws) = ws"
    unfolding str_split_def by (intro split_from_join) (use normal_word_split_ok in blast)
  moreover from assms have "map (str_translate string_punctuation) (map str_lower ws) = ws"
    by (induction ws) (simp_all add: normal_word_fix)
  moreover from assms have "filter str_isalpha ws = ws"
    by (induction ws) (simp_all add: normal_word_def)
  ultimately show ?thesis by (simp add: clean_desc_def)
qed

lemma clean_desc_idem: "clean_desc (clean_desc s) = clean_desc s"
proof -
  have "clean_desc s = str_join '' '' (filter str_isalpha (map (str_translate string_punctuation) (map str_lower (str_split s))))"
    by (simp add: clean_desc_def)
  then show ?thesis
    using clean_join_normal [OF clean_words_normal [of "str_split s"]] by simp
qed


lemma dict_set_fresh: "k \<notin> fst ` set d \<Longrightarrow> dict_set k v d = d @ [(k, v)]"
  by (induction d) auto

lemma keys_dict_set:
  "map fst (dict_set k v d) = (if k \<in> fst ` set d then map fst d else map fst d @ [k])"
  by (induction d) force+

lemma set_dict_set: "x \<in> set (dict_set k v d) \<Longrightarrow> x = (k, v) \<or> x \<in> set d"
  by (induction d) (auto split: if_splits)

lemma values_dict_set: "snd ` set (dict_set k v d) \<subseteq> insert v (snd ` set d)"
  using set_dict_set [of _ k v d] by force

lemma clean_fold_distinct:
  "distinct (map fst acc) \<Longrightarrow>
   distinct (map fst (fold (\<lambda>(image_id, desc_list). dict_set image_id (map clean_desc desc_list)) d acc))"
  by (induction d arbitrary: acc) (auto simp: keys_dict_set)

lemma clean_fold_values:
  "\<forall>l \<in> snd ` set acc. map clean_desc l = l \<Longrightarrow>
   \<forall>l \<in> snd ` set (fold (\<lambda>(image_id, desc_list). dict_set image_id (map clean_desc desc_list)) d acc).
      map clean_desc l = l"
proof (induction d arbitrary: acc)
  case Nil
  then show ?case by simp
next
  case (Cons kv d)
  obtain k l where kv: "kv = (k, l)" by (cases kv)
  have "\<forall>l' \<in> snd ` set (dict_set k (map clean_desc l) acc). map clean_desc l' = l'"
  proof
    fix l' assume "l' \<in> snd ` set (dict_set k (map clean_desc l) acc)"
    with values_dict_set [of k "map clean_desc l" acc]
    have "l' = map clean_desc l \<or> l' \<in> snd ` set acc" by blast
    then show "map clean_desc l' = l'"
      using Cons.prems by (auto simp: clean_desc_idem)
  qed
  from Cons.IH [OF this] show ?case by (simp add: kv)
qed

lemma clean_fold_append:
  "distinct (map fst d) \<Longrightarrow> fst ` set d \<inter> fst ` set acc = {} \<Longrightarrow>
   fold (\<lambda>(image_id, desc_list). dict_set image_id (map clean_desc desc_list)) d acc
     = acc @ map (\<lambda>(k, l). (k, map clean_desc l)) d"
proof (induction d arbitrary: acc)
  case Nil
  then show ?case by simp
next
  case (Cons kv d)
  obtain k l where kv: "kv = (k, l)" by (cases kv)
  from Cons.prems have fresh: "k \<notin> fst ` set acc" by (auto simp: kv)
  have "fold (\<lambda>(image_id, desc_list). dict_set image_id (map clean_desc desc_list)) d (acc @ [(k, map clean_desc l)])
        = (acc @ [(k, map clean_desc l)]) @ map (\<lambda>(k, l). (k, map clean_desc l)) d"
    using Cons.prems by (intro Cons.IH) (auto simp: kv)
  then show ?case by (simp add: kv dict_set_fresh [OF fresh])
qed

lemma map_clean_fixed:
  "\<forall>l \<in> snd ` set e. map clean_desc l = l \<Longrightarrow> map (\<lambda>(k, l). (k, map clean_desc l)) e = e"
  by (induction e) auto

lemma char_of_nat_eq: "(char_of (n::nat) = c) = (n mod 256 = of_char c)"
  by (metis char_of_char of_char_of)

text \<open>
  C5. Caption normalisation is idempotent: applying \<open>clean_descriptions\<close> to a mapping it
  has already returned gives that mapping back, for every description mapping.
\<close>

theorem clean_descriptions_idempotent:
  "clean_descriptions (clean_descriptions d) = clean_descriptions d"
proof -
  let ?e = "clean_descriptions d"
  have dist: "distinct (map fst ?e)"
    unfolding clean_descriptions_def by (intro clean_fold_distinct) simp
  have vals: "\<forall>l \<in> snd ` set ?e. map clean_desc l = l"
    unfolding clean_descriptions_def by (intro clean_fold_values) simp
  have "clean_descriptions ?e = [] @ map (\<lambda>(k, l). (k, map clean_desc l)) ?e"
    unfolding clean_descriptions_def [of ?e] using dist by (intro clean_fold_append) simp_all
  also have "\<dots> = ?e"
    using vals by (simp add: map_clean_fixed)
  finally show ?thesis .
qed

section \<open>The caption store and the normaliser\<close>


lemma fold_insert_set: "fold insert ws V = V \<union> set ws"
  by (induction ws arbitrary: V) auto

lemma fold_vocabulary:
  "fold (\<lambda>line vocabulary. fold insert (str_split line) vocabulary) ls V
     = V \<union> (\<Union>line \<in> set ls. set (str_split line))"
  by (induction ls arbitrary: V) (auto simp: fold_insert_set)

text \<open>
  C7. The set returned by \<open>to_vocabulary\<close> is exactly the set of the tokens (the words of
  \<open>line.split()\<close>) of the framed lines that \<open>descriptions_to_lines\<close> produces: every token of
  every framed caption is in it, and it holds nothing else.
\<close>

theorem to_vocabulary_exact:
  "to_vocabulary d = (\<Union>line \<in> set (descriptions_to_lines d). set (str_split line))"
  by (simp add: to_vocabulary_def fold_vocabulary)

lemma py_max_Max: "xs \<noteq> [] \<Longrightarrow> py_max xs = Max (set xs)"
  by (cases xs) (simp_all add: Max.set_eq_fold [symmetric])

lemma framed: "descriptions_to_lines [(k, [''a b c''])] = [''startseq a b c endseq'']"
  by (simp add: descriptions_to_lines_def)

text \<open>
  C9. \<open>max_len\<close> returns the largest token count among the framed captions (0 when there is
  none); the one caption \<open>a b c\<close> is framed as \<open>startseq a b c endseq\<close> and gives 5.
\<close>

theorem max_len_is_max:
  "fst (max_len self d) =
     (if descriptions_to_lines d = [] then 0
      else Max ((\<lambda>s. length (str_split s)) ` set (descriptions_to_lines d)))
   \<and> descriptions_to_lines [(k, [''a b c''])] = [''startseq a b c endseq'']
   \<and> fst (max_len self [(k, [''a b c''])]) = 5"
proof (intro conjI)
  show "fst (max_len self d) =
     (if descriptions_to_lines d = [] then 0
      else Max ((\<lambda>s. length (str_split s)) ` set (descriptions_to_lines d)))"
    by (simp add: max_len_def Let_def py_max_Max)
  show "descriptions_to_lines [(k, [''a b c''])] = [''startseq a b c endseq'']"
    by (rule framed)
  show "fst (max_len self [(k, [''a b c''])]) = 5"
    by (simp add: max_len_def Let_def framed str_split_def isspace_def)
qed


lemma comma_not_space: "\<not> isspace CHR '',''"
  by (simp add: isspace_def)

lemma in_dropWhile: "x \<in> set xs \<Longrightarrow> \<not> P x \<Longrightarrow> x \<in> set (dropWhile P xs)"
  by (induction xs) auto

lemma comma_in_strip: "CHR '','' \<in> set (str_strip line) \<longleftrightarrow> CHR '','' \<in> set line"
proof
  assume "CHR '','' \<in> set (str_strip line)"
  then show "CHR '','' \<in> set line"
    unfolding str_strip_def by (auto dest!: set_dropWhileD)
next
  assume "CHR '','' \<in> set line"
  then show "CHR '','' \<in> set (str_strip line)"
    unfolding str_strip_def by (simp add: in_dropWhile comma_not_space)
qed

lemma split_once_at:
  "sep \<notin> set before \<Longrightarrow> str_split_once sep (before @ sep # remainder) = [before, remainder]"
proof -
  assume n: "sep \<notin> set before"
  then have d: "dropWhile (\<lambda>c. c \<noteq> sep) (before @ sep # remainder) = sep # remainder"
    by (induction before) auto
  from n have t: "takeWhile (\<lambda>c. c \<noteq> sep) (before @ sep # remainder) = before"
    by (induction before) auto
  show ?thesis by (simp only: str_split_once_def d t list.case)
qed

lemma split_once_none: "sep \<notin> set s \<Longrightarrow> str_split_once sep s = [s]"
proof -
  assume "sep \<notin> set s"
  then have "dropWhile (\<lambda>c. c \<noteq> sep) s = []" by (induction s) auto
  then show ?thesis by (simp only: str_split_once_def list.case)
qed

lemma load_line_split:
  assumes "str_strip line = before @ CHR '','' # remainder" and "CHR '','' \<notin> set before"
  shows "load_line image_exists line mapping =
           (if image_exists (str_strip before)
            then dict_set (str_strip before)
                   ((case map_of mapping (str_strip before) of None \<Rightarrow> [] | Some l \<Rightarrow> l)
                      @ [str_strip remainder]) mapping
            else mapping)"
  using assms by (simp add: load_line_def split_once_at Let_def)

text \<open>
  C4, as amended. For every line with at least one comma, \<open>load_descriptions\<close> splits the
  stripped line at its first comma; the image identifier is the part before it and the caption
  is the whole remainder, internal commas included, each with its leading and trailing
  whitespace stripped, and the caption is recorded when the image exists. A line without a
  comma leaves the mapping as it is. Every line after the header is treated so, with nothing
  printed, and a missing captions file gives the empty mapping and one printed diagnostic.
\<close>

theorem load_descriptions_lines:
  "(CHR '','' \<in> set line \<longrightarrow>
      (\<exists>before remainder.
         str_strip line = before @ CHR '','' # remainder \<and> CHR '','' \<notin> set before \<and>
         load_line image_exists line mapping =
           (if image_exists (str_strip before)
            then dict_set (str_strip before)
                   ((case map_of mapping (str_strip before) of None \<Rightarrow> [] | Some l \<Rightarrow> l)
                      @ [str_strip remainder]) mapping
            else mapping)))
   \<and> (CHR '','' \<notin> set line \<longrightarrow> load_line image_exists line mapping = mapping)
   \<and> load_descriptions self (FileLines (header # lines)) image_exists
        = (fold (load_line image_exists) lines [], [])
   \<and> load_descriptions self FileNotFound image_exists
        = ([], [''Error: Captions file not found at '' @ captions_filepath self])"
proof (intro conjI impI)
  assume "CHR '','' \<in> set line"
  then have "CHR '','' \<in> set (str_strip line)" by (simp add: comma_in_strip)
  then obtain before remainder
    where d: "str_strip line = before @ CHR '','' # remainder" and n: "CHR '','' \<notin> set before"
    by (auto dest: split_list_first)
  from load_line_split [OF d n] d n
  show "\<exists>before remainder.
         str_strip line = before @ CHR '','' # remainder \<and> CHR '','' \<notin> set before \<and>
         load_line image_exists line mapping =
           (if image_exists (str_strip before)
            then dict_set (str_strip before)
                   ((case map_of mapping (str_strip before) of None \<Rightarrow> [] | Some l \<Rightarrow> l)
                      @ [str_strip remainder]) mapping
            else mapping)"
    by blast
next
  assume "CHR '','' \<notin> set line"
  then have "CHR '','' \<notin> set (str_strip line)" by (simp add: comma_in_strip)
  then show "load_line image_exists line mapping = mapping"
    by (simp add: load_line_def split_once_none)
next
  show "load_descriptions self (FileLines (header # lines)) image_exists
        = (fold (load_line image_exists) lines [], [])"
    by (simp add: load_descriptions_def)
next
  show "load_descriptions self FileNotFound image_exists
        = ([], [''Error: Captions file not found at '' @ captions_filepath self])"
    by (simp add: load_descriptions_def)
qed

theorem load_descriptions_lines_witness:
  "CHR '','' \<in> set ''img1.jpg, A Cat, big!''
   \<and> (\<exists>before remainder.
         str_strip ''img1.jpg, A Cat, big!'' = before @ CHR '','' # remainder \<and>
         CHR '','' \<notin> set before \<and>
         load_line (\<lambda>_. True) ''img1.jpg, A Cat, big!'' []
           = [(str_strip before, [str_strip remainder])])
   \<and> CHR '','' \<notin> set ''no comma here''
   \<and> load_line (\<lambda>_. True) ''no comma here'' [] = []"
  using load_descriptions_lines [of "''img1.jpg, A Cat, big!''" "\<lambda>_. True" "[]"]
    load_descriptions_lines [of "''no comma here''" "\<lambda>_. True" "[]"]
  by simp

text \<open>
  C4 as stated fails where whitespace follows the comma: the caption recorded for the line
  \<open>img1.jpg, A cat\<close> is \<open>A cat\<close>, not the remainder of the line after its first comma.
\<close>

theorem load_descriptions_strips_counterexample:
  "load_descriptions
      \<lparr>captions_filepath = ''captions.txt'', images_dir = ''images'', max_description_length = 0\<rparr>
      (FileLines [''image,caption'', ''img1.jpg, A cat'']) (\<lambda>_. True)
     = ([(''img1.jpg'', [''A cat''])], [])
   \<and> tl (dropWhile (\<lambda>c. c \<noteq> CHR '','') ''img1.jpg, A cat'') = '' A cat''
   \<and> ''A cat'' \<noteq> '' A cat''"
  by (simp add: load_descriptions_def load_line_def str_split_once_def str_strip_def isspace_def)

section \<open>The greedy decoding loop\<close>


lemma pad_sequences_positive:
  "0 < maxlen \<Longrightarrow> \<exists>p. pad_sequences s maxlen = Inr p \<and> length p = maxlen"
  by (auto simp: pad_sequences_def)

lemma decode_loop_steps:
  assumes "0 < max_length \<or> k = 0"
  shows "\<exists>in_text' p.
           decode_loop predict tok max_length k in_text predicted = Inr (in_text', predicted @ p) \<and>
           length p \<le> k \<and>
           (\<forall>y \<in> set (butlast p). \<exists>w. map_of (index_word tok) y = Some w \<and> w \<noteq> ''endseq'') \<and>
           (length p < k \<longrightarrow>
              p \<noteq> [] \<and> (map_of (index_word tok) (last p) = None \<or>
                         map_of (index_word tok) (last p) = Some ''endseq''))"
  using assms
proof (induction k arbitrary: in_text predicted)
  case 0
  then show ?case by simp
next
  case (Suc k)
  then have pos: "0 < max_length" by simp
  from pad_sequences_positive [OF pos] obtain sequence
    where pad: "pad_sequences (texts_to_sequences tok in_text) max_length = Inr sequence"
    by blast
  let ?y = "predict sequence"
  show ?case
  proof (cases "map_of (index_word tok) ?y")
    case None
    with pad have "decode_loop predict tok max_length (Suc k) in_text predicted
                     = Inr (in_text, predicted @ [?y])"
      by simp
    with None show ?thesis by simp
  next
    case (Some word)
    show ?thesis
    proof (cases "word = ''endseq''")
      case True
      with pad Some have "decode_loop predict tok max_length (Suc k) in_text predicted
                     = Inr (in_text @ '' '' @ word, predicted @ [?y])"
        by simp
      with Some True show ?thesis by simp
    next
      case False
      with pad Some have step: "decode_loop predict tok max_length (Suc k) in_text predicted
          = decode_loop predict tok max_length k (in_text @ '' '' @ word) (predicted @ [?y])"
        by simp
      from Suc.IH [of "in_text @ '' '' @ word" "predicted @ [?y]"] pos
      obtain t p where r: "decode_loop predict tok max_length k (in_text @ '' '' @ word) (predicted @ [?y])
               = Inr (t, (predicted @ [?y]) @ p)"
        and l: "length p \<le> k"
        and b: "\<forall>y \<in> set (butlast p). \<exists>w. map_of (index_word tok) y = Some w \<and> w \<noteq> ''endseq''"
        and e: "length p < k \<longrightarrow>
              p \<noteq> [] \<and> (map_of (index_word tok) (last p) = None \<or>
                         map_of (index_word tok) (last p) = Some ''endseq'')"
        by blast
      have b': "\<forall>y \<in> set (butlast (?y # p)). \<exists>w. map_of (index_word tok) y = Some w \<and> w \<noteq> ''endseq''"
        using b Some False by (cases p) auto
      have e': "length (?y # p) < Suc k \<longrightarrow>
              ?y # p \<noteq> [] \<and> (map_of (index_word tok) (last (?y # p)) = None \<or>
                         map_of (index_word tok) (last (?y # p)) = Some ''endseq'')"
        using e by auto
      from step r have "decode_loop predict tok max_length (Suc k) in_text predicted
          = Inr (t, predicted @ (?y # p))" by simp
      with l b' e' show ?thesis by (intro exI [of _ t] exI [of _ "?y # p"]) simp
    qed
  qed
qed

text \<open>
  C2, as amended. For every decoder, vocabulary, embedding and max length, \<open>generate_caption\<close>
  returns after at most \<open>max_length\<close> prediction steps. It stops before the cap exactly when
  the index predicted last is that of the end marker or has no word in the index-to-word
  mapping: every earlier prediction is a word other than the end marker, and a run shorter than
  the cap ends on the end marker or on an unmapped index.
\<close>

theorem generate_caption_terminates:
  "\<exists>in_text predicted.
     generate_caption model tok photo_features max_length = Inr (in_text, predicted) \<and>
     length predicted \<le> max_length \<and>
     (\<forall>y \<in> set (butlast predicted). \<exists>w. map_of (index_word tok) y = Some w \<and> w \<noteq> ''endseq'') \<and>
     (length predicted < max_length \<longrightarrow>
        predicted \<noteq> [] \<and> (map_of (index_word tok) (last predicted) = None \<or>
                           map_of (index_word tok) (last predicted) = Some ''endseq''))"
proof -
  have "0 < max_length \<or> max_length = 0" by auto
  from decode_loop_steps [OF this, of "model photo_features" tok "''startseq''" "[]"]
  show ?thesis by (simp add: generate_caption_def)
qed


lemmas text_eval = text_to_word_sequence_def str_lower_def lower_char_def keras_filters_def
  string_punctuation_def char_of_nat_eq

theorem generate_caption_terminates_witness:
  "\<exists>in_text predicted.
     generate_caption (\<lambda>f s. if last s = 1 then 3 else 2)
        \<lparr>word_index = [(''startseq'', 1), (''endseq'', 2), (''a'', 3)],
         index_word = [(1, ''startseq''), (2, ''endseq''), (3, ''a'')]\<rparr> () 5
       = Inr (in_text, predicted) \<and>
     length predicted < 5 \<and> predicted \<noteq> [] \<and>
     map_of [(1, ''startseq''), (2, ''endseq''), (3, ''a'')] (last predicted) = Some ''endseq''"
proof -
  let ?tok = "\<lparr>word_index = [(''startseq'', 1), (''endseq'', 2), (''a'', 3)],
         index_word = [(1::nat, ''startseq''), (2, ''endseq''), (3, ''a'')]\<rparr>"
  have ev: "generate_caption (\<lambda>f s. if last s = 1 then 3 else 2) ?tok () 5
              = Inr (''startseq a endseq'', [3, 2])"
    by (simp add: generate_caption_def eval_nat_numeral texts_to_sequences_def pad_sequences_def
        text_eval)
  from generate_caption_terminates [of "\<lambda>f s. if last s = 1 then 3 else 2" ?tok "()" 5] ev
  show ?thesis by simp
qed

text \<open>
  C2 as stated fails: with a decoder that predicts the padding index 0, the loop stops after
  one step of three although the end marker was not predicted.
\<close>

theorem generate_caption_unknown_counterexample:
  "generate_caption (\<lambda>f s. 0)
      \<lparr>word_index = [(''startseq'', 1), (''endseq'', 2), (''a'', 3)],
       index_word = [(1, ''startseq''), (2, ''endseq''), (3, ''a'')]\<rparr> () 3
     = Inr (''startseq'', [0])
   \<and> length [0::nat] < 3
   \<and> map_of [(1::nat, ''startseq''), (2, ''endseq''), (3, ''a'')] 0 \<noteq> Some ''endseq''"
  by (simp add: generate_caption_def eval_nat_numeral texts_to_sequences_def pad_sequences_def
        text_eval)

lemma index_word_keys:
  "fst ` set (index_word (fit_on_texts texts)) \<subseteq> {1 ..< length (word_index (fit_on_texts texts)) + 1}"
proof -
  have "fst ` set (map (\<lambda>(w, c). (c, w)) (zip voc us)) \<subseteq> set us" for voc :: "string list" and us :: "nat list"
    by (auto dest: set_zip_rightD)
  then show ?thesis
    by (auto simp: fit_on_texts_def Let_def dest!: set_zip_rightD)
qed

lemma index_word_zero: "map_of (index_word (fit_on_texts texts)) 0 = None"
  using index_word_keys [of texts] by (auto simp: map_of_eq_None_iff)

text \<open>
  C10. At any step of the decoding loop, with iterations still left, an argmax index without an
  entry in the index-to-word mapping ends the loop at once: the text is returned as it was,
  with no token appended. The padding index 0 is such an index in every fitted vocabulary.
\<close>

theorem decode_loop_unknown_index_breaks:
  "(pad_sequences (texts_to_sequences tok in_text) max_length = Inr sequence \<longrightarrow>
    map_of (index_word tok) (predict sequence) = None \<longrightarrow>
    decode_loop predict tok max_length (Suc k) in_text predicted
      = Inr (in_text, predicted @ [predict sequence]))
   \<and> map_of (index_word (fit_on_texts texts)) 0 = None"
  by (simp add: index_word_zero)

theorem decode_loop_unknown_index_breaks_witness:
  "pad_sequences (texts_to_sequences (fit_on_texts [''startseq a endseq'']) ''startseq'') 4 = Inr [0, 0, 0, 1]
   \<and> map_of (index_word (fit_on_texts [''startseq a endseq''])) 0 = None
   \<and> decode_loop (\<lambda>s. 0) (fit_on_texts [''startseq a endseq'']) 4 (Suc 3) ''startseq'' []
        = Inr (''startseq'', [0])"
proof -
  let ?tok = "fit_on_texts [''startseq a endseq'']"
  have tok: "?tok = \<lparr>word_index = [(''startseq'', 1), (''a'', 2), (''endseq'', 3)],
      index_word = [(1, ''startseq''), (2, ''a''), (3, ''endseq'')]\<rparr>"
    by (simp add: fit_on_texts_def count_word_def text_eval Let_def)
  have pad: "pad_sequences (texts_to_sequences ?tok ''startseq'') 4 = Inr [0, 0, 0, 1]"
    by (simp add: tok texts_to_sequences_def pad_sequences_def text_eval eval_nat_numeral)
  have none: "map_of (index_word ?tok) ((\<lambda>s. 0) [0, 0, 0, 1::nat]) = None"
    by (simp add: tok)
  from decode_loop_unknown_index_breaks [of ?tok "''startseq''" 4 "[0, 0, 0, 1]" "\<lambda>s. 0" 3 "[]" "[''startseq a endseq'']"]
    pad none
  show ?thesis by simp
qed

section \<open>The predict path\<close>


lemma predict_no_model:
  "\<not> model_path_exists env \<Longrightarrow>
      predict_caption env model image_path name
        = Inr ([''--- Predicting Caption (Feature Model: '' @ name @ '') ---'',
                ''Error: Model not found at '' @ model_path env @ ''. Please train the model first.''],
               None)"
  by (simp add: predict_caption_def)

lemma predict_no_tokenizer:
  "model_path_exists env \<Longrightarrow> \<not> tokenizer_path_exists env \<Longrightarrow>
      predict_caption env model image_path name
        = Inr ([''--- Predicting Caption (Feature Model: '' @ name @ '') ---'',
                ''Error: Tokenizer not found at '' @ tokenizer_path env @ ''. Please train the model first.''],
               None)"
  by (simp add: predict_caption_def)

lemma predict_no_max_length:
  "model_path_exists env \<Longrightarrow> tokenizer_path_exists env \<Longrightarrow> \<not> max_length_path_exists env \<Longrightarrow>
      predict_caption env model image_path name
        = Inr ([''--- Predicting Caption (Feature Model: '' @ name @ '') ---'',
                ''Error: Max length not found at '' @ max_length_path env @ ''. Please train the model first.''],
               None)"
  by (simp add: predict_caption_def)

lemma predict_needs_three:
  assumes "predict_caption env model image_path name = Inr (out, Some caption)"
  shows "model_path_exists env \<and> tokenizer_path_exists env \<and> max_length_path_exists env"
proof -
  have "\<not> model_path_exists env \<Longrightarrow> False"
    using assms predict_no_model [of env model image_path name] by simp
  moreover have "model_path_exists env \<Longrightarrow> \<not> tokenizer_path_exists env \<Longrightarrow> False"
    using assms predict_no_tokenizer [of env model image_path name] by simp
  moreover have "model_path_exists env \<Longrightarrow> tokenizer_path_exists env \<Longrightarrow> \<not> max_length_path_exists env \<Longrightarrow> False"
    using assms predict_no_max_length [of env model image_path name] by simp
  ultimately show ?thesis by blast
qed

lemma predict_ignores_cache:
  "predict_caption (env\<lparr>features_path_exists := b\<rparr>) model image_path name
        = predict_caption env model image_path name"
  unfolding predict_caption_def
  by (simp cong: sum.case_cong option.case_cong prod.case_cong if_cong)


text \<open>
  C8, as amended. At predict time the three persisted artifacts that the predict path reads (the
  decoder weights, the fitted vocabulary, the max length) must be present: when one of them is
  missing, \<open>predict_caption\<close> prints one error naming it and returns without a caption, and a
  caption is produced only when all three exist. The embedding cache is not among them: whether
  it exists makes no difference to \<open>predict_caption\<close>.
\<close>

theorem predict_caption_missing_artifact:
  "(\<not> model_path_exists env \<longrightarrow>
      predict_caption env model image_path name
        = Inr ([''--- Predicting Caption (Feature Model: '' @ name @ '') ---'',
                ''Error: Model not found at '' @ model_path env @ ''. Please train the model first.''],
               None))
   \<and> (model_path_exists env \<and> \<not> tokenizer_path_exists env \<longrightarrow>
      predict_caption env model image_path name
        = Inr ([''--- Predicting Caption (Feature Model: '' @ name @ '') ---'',
                ''Error: Tokenizer not found at '' @ tokenizer_path env @ ''. Please train the model first.''],
               None))
   \<and> (model_path_exists env \<and> tokenizer_path_exists env \<and> \<not> max_length_path_exists env \<longrightarrow>
      predict_caption env model image_path name
        = Inr ([''--- Predicting Caption (Feature Model: '' @ name @ '') ---'',
                ''Error: Max length not found at '' @ max_length_path env @ ''. Please train the model first.''],
               None))
   \<and> (predict_caption env model image_path name = Inr (out, Some caption) \<longrightarrow>
        model_path_exists env \<and> tokenizer_path_exists env \<and> max_length_path_exists env)
   \<and> predict_caption (env\<lparr>features_path_exists := b\<rparr>) model image_path name
        = predict_caption env model image_path name"
  using predict_no_model [of env model image_path name]
    predict_no_tokenizer [of env model image_path name]
    predict_no_max_length [of env model image_path name]
    predict_needs_three [of env model image_path name out caption]
    predict_ignores_cache [of b env model image_path name]
  by blast

lemma example_env_predicts:
  "predict_caption (example_env True True True c) (\<lambda>f s. if last s = 1 then 3 else 2) ''query.jpg'' ''vgg16''
     = Inr ([''--- Predicting Caption (Feature Model: vgg16) ---'',
             ''Model weights loaded successfully.'', ''Generated Caption: a''], Some ''a'')"
  by (simp add: example_env_def predict_caption_def feature_extractor_def generate_caption_def
      eval_nat_numeral texts_to_sequences_def pad_sequences_def str_replace_def text_eval Let_def)

theorem predict_caption_missing_artifact_witness:
  "predict_caption (example_env False True True True) (\<lambda>f s. 2) ''query.jpg'' ''vgg16''
     = Inr ([''--- Predicting Caption (Feature Model: vgg16) ---'',
             ''Error: Model not found at models/image_captioning_model.h5. Please train the model first.''],
            None)
   \<and> predict_caption (example_env True False True True) (\<lambda>f s. 2) ''query.jpg'' ''vgg16''
     = Inr ([''--- Predicting Caption (Feature Model: vgg16) ---'',
             ''Error: Tokenizer not found at models/tokenizer.pkl. Please train the model first.''],
            None)
   \<and> predict_caption (example_env True True False True) (\<lambda>f s. 2) ''query.jpg'' ''vgg16''
     = Inr ([''--- Predicting Caption (Feature Model: vgg16) ---'',
             ''Error: Max length not found at models/max_length.pkl. Please train the model first.''],
            None)
   \<and> predict_caption (example_env True True True True) (\<lambda>f s. if last s = 1 then 3 else 2) ''query.jpg'' ''vgg16''
     = Inr ([''--- Predicting Caption (Feature Model: vgg16) ---'',
             ''Model weights loaded successfully.'', ''Generated Caption: a''], Some ''a'')
   \<and> model_path_exists (example_env True True True True)
   \<and> tokenizer_path_exists (example_env True True True True)
   \<and> max_length_path_exists (example_env True True True True)"
  using predict_caption_missing_artifact [of "example_env False True True True" "\<lambda>f s. 2" "''query.jpg''" "''vgg16''"]
    predict_caption_missing_artifact [of "example_env True False True True" "\<lambda>f s. 2" "''query.jpg''" "''vgg16''"]
    predict_caption_missing_artifact [of "example_env True True False True" "\<lambda>f s. 2" "''query.jpg''" "''vgg16''"]
    predict_caption_missing_artifact [of "example_env True True True True" "\<lambda>f s. if last s = 1 then 3 else 2"
       "''query.jpg''" "''vgg16''"]
    example_env_predicts [of True]
  by (simp add: example_env_def)

text \<open>
  C8 as stated fails: with the embedding cache missing and the other three artifacts present,
  prediction goes ahead and prints a caption.
\<close>

theorem predict_caption_without_cache_counterexample:
  "\<not> features_path_exists (example_env True True True False)
   \<and> predict_caption (example_env True True True False) (\<lambda>f s. if last s = 1 then 3 else 2) ''query.jpg'' ''vgg16''
     = Inr ([''--- Predicting Caption (Feature Model: vgg16) ---'',
             ''Model weights loaded successfully.'', ''Generated Caption: a''], Some ''a'')"
  using example_env_predicts [of False] by (simp add: example_env_def)

section \<open>The training example generator\<close>


lemma collect_all_Inr:
  "\<forall>x \<in> set xs. f x = Inr (g x) \<Longrightarrow> collect (map f xs) = Inr (map g xs)"
  by (induction xs) auto

lemma pad_sequences_prefix:
  assumes "1 \<le> i" and "i < length seq" and "length seq \<le> max_length"
  shows "pad_sequences (take i seq) max_length = Inr (replicate (max_length - i) 0 @ take i seq)"
proof -
  from assms have "take i seq \<noteq> []" and "max_length \<noteq> 0" and "length (take i seq) = i"
    by auto
  moreover from assms have "i - max_length = 0" by simp
  ultimately show ?thesis by (simp add: pad_sequences_def)
qed

lemma to_categorical_in_range:
  "y < num_classes \<Longrightarrow> to_categorical y num_classes = Inr ((replicate num_classes 0)[y := 1])"
  by (auto simp: to_categorical_def)

lemma caption_triples_ok:
  assumes len: "length (texts_to_sequences tok desc_line) \<le> max_length"
    and voc: "\<forall>y \<in> set (texts_to_sequences tok desc_line). y < vocab_size"
  shows "caption_triples tok max_length vocab_size img_features desc_line
           = Inr (map (\<lambda>i. (img_features,
                            replicate (max_length - i) 0 @ take i (texts_to_sequences tok desc_line),
                            (replicate vocab_size 0)[texts_to_sequences tok desc_line ! i := 1]))
                      [1 ..< length (texts_to_sequences tok desc_line)])"
proof -
  let ?seq = "texts_to_sequences tok desc_line"
  have "\<forall>i \<in> set [1 ..< length ?seq].
          (case pad_sequences (take i ?seq) max_length of
             Inl e \<Rightarrow> Inl e
           | Inr in_seq \<Rightarrow>
               (case to_categorical (?seq ! i) vocab_size of
                  Inl e \<Rightarrow> Inl e
                | Inr out_seq \<Rightarrow> Inr (img_features, in_seq, out_seq)))
          = Inr (img_features, replicate (max_length - i) 0 @ take i ?seq,
                 (replicate vocab_size 0)[?seq ! i := 1])"
  proof
    fix i assume "i \<in> set [1 ..< length ?seq]"
    then have i: "1 \<le> i" "i < length ?seq" by auto
    from i(2) voc have "?seq ! i < vocab_size" by simp
    then show "(case pad_sequences (take i ?seq) max_length of
             Inl e \<Rightarrow> Inl e
           | Inr in_seq \<Rightarrow>
               (case to_categorical (?seq ! i) vocab_size of
                  Inl e \<Rightarrow> Inl e
                | Inr out_seq \<Rightarrow> Inr (img_features, in_seq, out_seq)))
          = Inr (img_features, replicate (max_length - i) 0 @ take i ?seq,
                 (replicate vocab_size 0)[?seq ! i := 1])"
      by (simp add: pad_sequences_prefix [OF i len] to_categorical_in_range)
  qed
  from collect_all_Inr [OF this] show ?thesis
    by (simp add: caption_triples_def Let_def)
qed

lemma known_words_length:
  "set ws \<subseteq> fst ` set wi \<Longrightarrow>
   length (concat (map (\<lambda>w. case map_of wi w of None \<Rightarrow> [] | Some i \<Rightarrow> [i]) ws)) = length ws"
proof (induction ws)
  case Nil
  then show ?case by simp
next
  case (Cons w ws)
  then have "w \<in> fst ` set wi" by simp
  then obtain i where "map_of wi w = Some i"
    by (metis map_of_eq_None_iff not_None_eq)
  with Cons show ?case by simp
qed

lemma texts_to_sequences_length:
  "set (text_to_word_sequence l) \<subseteq> fst ` set (word_index tok) \<Longrightarrow>
   length (texts_to_sequences tok l) = length (text_to_word_sequence l)"
  by (simp add: texts_to_sequences_def known_words_length)

lemma example_tokenizer:
  "fit_on_texts [''startseq a cat sits endseq'', ''startseq a dog endseq'']
   = \<lparr>word_index = [(''startseq'', 1), (''a'', 2), (''endseq'', 3), (''cat'', 4), (''sits'', 5), (''dog'', 6)],
      index_word = [(1, ''startseq''), (2, ''a''), (3, ''endseq''), (4, ''cat''), (5, ''sits''), (6, ''dog'')]\<rparr>"
  by (simp add: fit_on_texts_def count_word_def text_eval Let_def)

section \<open>The train path\<close>

subsection \<open>The loaded and the normalised mapping\<close>


lemma load_line_distinct:
  "distinct (map fst m) \<Longrightarrow> distinct (map fst (load_line ex line m))"
  by (simp add: load_line_def Let_def keys_dict_set)

lemma load_line_nonempty:
  assumes "\<forall>l \<in> snd ` set m. l \<noteq> []"
  shows "\<forall>l \<in> snd ` set (load_line ex line m). l \<noteq> []"
proof -
  have "\<forall>l \<in> snd ` set (dict_set k (old @ [d]) m). l \<noteq> []" for k old d
  proof
    fix l assume "l \<in> snd ` set (dict_set k (old @ [d]) m)"
    then obtain a where "(a, l) \<in> set (dict_set k (old @ [d]) m)" by auto
    from set_dict_set [OF this] have "l = old @ [d] \<or> l \<in> snd ` set m" by force
    with assms show "l \<noteq> []" by auto
  qed
  then show ?thesis by (simp add: load_line_def Let_def assms)
qed

lemma load_fold_invariant:
  "distinct (map fst m) \<Longrightarrow> \<forall>l \<in> snd ` set m. l \<noteq> [] \<Longrightarrow>
   distinct (map fst (fold (load_line ex) lines m)) \<and>
   (\<forall>l \<in> snd ` set (fold (load_line ex) lines m). l \<noteq> [])"
proof (induction lines arbitrary: m)
  case Nil
  then show ?case by simp
next
  case (Cons line lines)
  from Cons.prems(1) have a: "distinct (map fst (load_line ex line m))"
    by (rule load_line_distinct)
  from Cons.prems(2) have b: "\<forall>l \<in> snd ` set (load_line ex line m). l \<noteq> []"
    by (rule load_line_nonempty)
  from Cons.IH [OF a b] show ?case by simp
qed

lemma load_descriptions_invariant:
  "distinct (map fst (fst (load_descriptions loader source ex))) \<and>
   (\<forall>l \<in> snd ` set (fst (load_descriptions loader source ex)). l \<noteq> [])"
proof (cases source)
  case (FileLines ls)
  then show ?thesis
    using load_fold_invariant [of "[]" ex "tl ls"]
    by (cases ls) (simp_all add: load_descriptions_def)
qed (simp_all add: load_descriptions_def)

lemma clean_descriptions_distinct:
  "distinct (map fst d) \<Longrightarrow>
   clean_descriptions d = map (\<lambda>(k, l). (k, map clean_desc l)) d"
  using clean_fold_append [of d "[]"] by (simp add: clean_descriptions_def)

lemma filter_fold_append:
  "distinct (map fst d) \<Longrightarrow> fst ` set d \<inter> fst ` set acc = {} \<Longrightarrow>
   fold (\<lambda>(k, l) filtered. if p k then dict_set k (h k l) filtered else filtered) d acc
     = acc @ map (\<lambda>(k, l). (k, h k l)) (filter (\<lambda>(k, l). p k) d)"
proof (induction d arbitrary: acc)
  case Nil
  then show ?case by simp
next
  case (Cons kv d)
  obtain k l where kv: "kv = (k, l)" by (cases kv)
  from Cons.prems have fresh: "k \<notin> fst ` set acc" by (auto simp: kv)
  show ?case
  proof (cases "p k")
    case True
    have "fold (\<lambda>(k, l) filtered. if p k then dict_set k (h k l) filtered else filtered) d (acc @ [(k, h k l)])
        = (acc @ [(k, h k l)]) @ map (\<lambda>(k, l). (k, h k l)) (filter (\<lambda>(k, l). p k) d)"
      using Cons.prems by (intro Cons.IH) (auto simp: kv)
    with True show ?thesis by (simp add: kv dict_set_fresh [OF fresh])
  next
    case False
    have "fold (\<lambda>(k, l) filtered. if p k then dict_set k (h k l) filtered else filtered) d acc
        = acc @ map (\<lambda>(k, l). (k, h k l)) (filter (\<lambda>(k, l). p k) d)"
      using Cons.prems by (intro Cons.IH) (auto simp: kv)
    with False show ?thesis by (simp add: kv)
  qed
qed

lemma descriptions_to_lines_single:
  "descriptions_to_lines [(k, l)] = map (\<lambda>desc. ''startseq '' @ desc @ '' endseq'') l"
  by (simp add: descriptions_to_lines_def)

lemma train_cleaned_invariant:
  "distinct (map fst (train_cleaned loader source ex)) \<and>
   (\<forall>l \<in> snd ` set (train_cleaned loader source ex). l \<noteq> []) \<and>
   map fst (train_cleaned loader source ex) = map fst (fst (load_descriptions loader source ex))"
proof -
  let ?d = "fst (load_descriptions loader source ex)"
  from load_descriptions_invariant [of loader source ex]
  have dist: "distinct (map fst ?d)" and ne: "\<forall>l \<in> snd ` set ?d. l \<noteq> []" by simp_all
  have c: "train_cleaned loader source ex = map (\<lambda>(k, l). (k, map clean_desc l)) ?d"
    by (simp add: train_cleaned_def clean_descriptions_distinct [OF dist])
  have k: "map fst (map (\<lambda>(k, l). (k, map clean_desc l)) ?d) = map fst ?d"
    by (induction ?d) auto
  from ne have v: "\<forall>l \<in> snd ` set (map (\<lambda>(k, l). (k, map clean_desc l)) ?d). l \<noteq> []"
    by force
  from c k have keys: "map fst (train_cleaned loader source ex) = map fst ?d" by simp
  from dist keys have "distinct (map fst (train_cleaned loader source ex))" by simp
  moreover from v c have "\<forall>l \<in> snd ` set (train_cleaned loader source ex). l \<noteq> []" by simp
  ultimately show ?thesis using keys by blast
qed

lemma train_cleaned_values:
  assumes "(k, l) \<in> set (train_cleaned loader source ex)" and "desc \<in> set l"
  shows "\<exists>x. desc = clean_desc x"
proof -
  let ?d = "fst (load_descriptions loader source ex)"
  from load_descriptions_invariant [of loader source ex] have dist: "distinct (map fst ?d)" by simp
  have "train_cleaned loader source ex = map (\<lambda>(k, l). (k, map clean_desc l)) ?d"
    by (simp add: train_cleaned_def clean_descriptions_distinct [OF dist])
  with assms(1) obtain l' where "l = map clean_desc l'" by auto
  with assms(2) show ?thesis by auto
qed

lemma train_model_data_eq:
  "\<exists>out. train_model_data loader source ex all_features =
     (if train_filtered loader source ex all_features = [] then
        (out @ [''No matching image features found for descriptions. Training aborted.''], None)
      else
        (out,
         Some \<lparr>td_descriptions = train_filtered loader source ex all_features,
                 td_image_ids = map fst (train_filtered loader source ex all_features),
                 td_tokenizer = fit_on_texts (descriptions_to_lines (train_cleaned loader source ex)),
                 td_max_length = fst (max_len loader (train_cleaned loader source ex)),
                 td_vocab_size =
                   length (word_index (fit_on_texts (descriptions_to_lines (train_cleaned loader source ex)))) + 1\<rparr>))"
proof -
  obtain d out where ld: "load_descriptions loader source ex = (d, out)" by force
  obtain m loader' where ml: "max_len loader (clean_descriptions d) = (m, loader')" by force
  have c: "train_cleaned loader source ex = clean_descriptions d"
    by (simp add: train_cleaned_def ld)
  from train_cleaned_invariant [of loader source ex] have dist: "distinct (map fst (clean_descriptions d))"
    unfolding c by blast
  have f: "fold (\<lambda>(img_id, desc_list) filtered.
                    if all_features img_id \<noteq> None
                    then dict_set img_id (descriptions_to_lines [(img_id, desc_list)]) filtered
                    else filtered) (clean_descriptions d) []
        = train_filtered loader source ex all_features"
    using filter_fold_append [OF dist, of "[]" "\<lambda>k. all_features k \<noteq> None"
        "\<lambda>k l. descriptions_to_lines [(k, l)]"]
    by (simp add: train_filtered_def c descriptions_to_lines_single)
  show ?thesis
    unfolding train_model_data_def ld ml c f Let_def prod.case
    by (simp add: ml)
qed

subsection \<open>The fitted vocabulary\<close>

lemma keys_count_word: "fst ` set (count_word w wc) = insert w (fst ` set wc)"
proof -
  have "set (map fst (count_word w wc)) = insert w (set (map fst wc))"
    unfolding count_word_def keys_dict_set by auto
  then show ?thesis by simp
qed

lemma keys_fold_count_word: "fst ` set (fold count_word ws wc) = fst ` set wc \<union> set ws"
  by (induction ws arbitrary: wc) (auto simp: keys_count_word)

lemma keys_word_counts:
  "fst ` set (fold (\<lambda>text wc. fold count_word (text_to_word_sequence text) wc) texts wc)
     = fst ` set wc \<union> (\<Union>t \<in> set texts. set (text_to_word_sequence t))"
  by (induction texts arbitrary: wc) (auto simp: keys_fold_count_word)

lemma length_index_range: "length [1 ..< length voc + 1] = length voc"
  by (simp only: length_upt add_diff_cancel_right')

lemma zip_index_keys: "fst ` set (zip voc [1 ..< length voc + 1]) = set voc"
proof -
  have "map fst (zip voc [1 ..< length voc + 1]) = voc"
    by (rule map_fst_zip) (simp only: length_index_range)
  then show ?thesis by (metis set_map)
qed

lemma zip_index_values: "snd ` set (zip voc [1 ..< length voc + 1]) \<subseteq> {1 ..< length voc + 1}"
proof
  fix i assume "i \<in> snd ` set (zip voc [1 ..< length voc + 1])"
  then obtain w where "(w, i) \<in> set (zip voc [1 ..< length voc + 1])" by auto
  then have "i \<in> set [1 ..< length voc + 1]" by (rule set_zip_rightD)
  then show "i \<in> {1 ..< length voc + 1}" by (simp only: set_upt)
qed

lemma word_index_shape:
  "\<exists>voc. word_index (fit_on_texts texts) = zip voc [1 ..< length voc + 1] \<and>
         set voc = (\<Union>t \<in> set texts. set (text_to_word_sequence t))"
proof -
  define wc where "wc = fold (\<lambda>text wc. fold count_word (text_to_word_sequence text) wc) texts []"
  define voc where "voc = map fst (sort_key (\<lambda>x. - int (snd x)) wc)"
  have wi: "word_index (fit_on_texts texts) = zip voc [1 ..< length voc + 1]"
    by (simp add: fit_on_texts_def Let_def voc_def wc_def)
  have "set voc = fst ` set wc" by (simp add: voc_def)
  also have "\<dots> = (\<Union>t \<in> set texts. set (text_to_word_sequence t))"
    unfolding wc_def keys_word_counts by simp
  finally show ?thesis using wi by blast
qed

lemma word_index_keys:
  "fst ` set (word_index (fit_on_texts texts)) = (\<Union>t \<in> set texts. set (text_to_word_sequence t))"
proof -
  from word_index_shape [of texts] obtain voc
    where wi: "word_index (fit_on_texts texts) = zip voc [1 ..< length voc + 1]"
      and sv: "set voc = (\<Union>t \<in> set texts. set (text_to_word_sequence t))"
    by blast
  show ?thesis unfolding wi zip_index_keys sv ..
qed

lemma word_index_values:
  "snd ` set (word_index (fit_on_texts texts)) \<subseteq> {1 ..< length (word_index (fit_on_texts texts)) + 1}"
proof -
  from word_index_shape [of texts] obtain voc
    where wi: "word_index (fit_on_texts texts) = zip voc [1 ..< length voc + 1]"
    by blast
  have l: "length (zip voc [1 ..< length voc + 1]) = length voc"
    by (simp only: length_zip length_index_range min.idem)
  show ?thesis unfolding wi l by (rule zip_index_values)
qed

lemma sequence_values:
  "set (concat (map (\<lambda>w. case map_of wi w of None \<Rightarrow> [] | Some i \<Rightarrow> [i]) ws)) \<subseteq> snd ` set wi"
proof (induction ws)
  case Nil
  then show ?case by simp
next
  case (Cons w ws)
  show ?case
  proof (cases "map_of wi w")
    case None
    with Cons show ?thesis by simp
  next
    case (Some i)
    then have "(w, i) \<in> set wi" by (rule map_of_SomeD)
    then have "i \<in> snd ` set wi" by force
    with Cons Some show ?thesis by simp
  qed
qed

lemma fitted_sequence:
  assumes "line \<in> set texts"
  shows "length (texts_to_sequences (fit_on_texts texts) line) = length (text_to_word_sequence line)"
    and "\<forall>y \<in> set (texts_to_sequences (fit_on_texts texts) line).
           y < length (word_index (fit_on_texts texts)) + 1"
proof -
  from assms have "set (text_to_word_sequence line) \<subseteq> fst ` set (word_index (fit_on_texts texts))"
    unfolding word_index_keys by blast
  then show "length (texts_to_sequences (fit_on_texts texts) line) = length (text_to_word_sequence line)"
    by (rule texts_to_sequences_length)
  have "set (texts_to_sequences (fit_on_texts texts) line) \<subseteq> snd ` set (word_index (fit_on_texts texts))"
    unfolding texts_to_sequences_def by (rule sequence_values)
  with word_index_values [of texts]
  show "\<forall>y \<in> set (texts_to_sequences (fit_on_texts texts) line).
           y < length (word_index (fit_on_texts texts)) + 1"
    by fastforce
qed


subsection \<open>Framed, normalised captions\<close>

lemma plain_not_filtered: "plain_char c \<Longrightarrow> \<not> keras_filters c"
  by (auto simp: plain_char_def keras_filters_def string_punctuation_def isalpha_char_def Let_def)

lemma plain_lower: "plain_char c \<Longrightarrow> lower_char c = c"
  by (auto simp: plain_char_def lower_char_def)

lemma plain_space: "plain_char c \<Longrightarrow> isspace c \<longleftrightarrow> c = CHR '' ''"
  by (auto simp: plain_char_def isspace_space dest: isalpha_not_space)

lemma text_to_word_sequence_plain:
  assumes "\<forall>c \<in> set s. plain_char c"
  shows "text_to_word_sequence s = filter (\<lambda>i. i \<noteq> []) (str_split_sep CHR '' '' s)"
proof -
  from assms have "map lower_char s = s"
    by (induction s) (simp_all add: plain_lower)
  moreover from assms have "map (\<lambda>c. if keras_filters c then CHR '' '' else c) s = s"
    by (induction s) (simp_all add: plain_not_filtered)
  ultimately show ?thesis by (simp add: text_to_word_sequence_def str_lower_def)
qed

lemma str_split_sep_nonempty: "str_split_sep sep s \<noteq> []"
  by (induction s) (auto split: list.splits)

lemma split_from_sep:
  assumes "\<forall>c \<in> set s. isspace c \<longleftrightarrow> c = CHR '' ''"
  shows "split_from w s
           = filter (\<lambda>i. i \<noteq> [])
               (case str_split_sep CHR '' '' s of [] \<Rightarrow> [] | p # ps \<Rightarrow> (w @ p) # ps)"
  using assms
proof (induction s arbitrary: w)
  case Nil
  then show ?case by simp
next
  case (Cons c cs)
  from Cons.prems have cs: "\<forall>c \<in> set cs. isspace c \<longleftrightarrow> c = CHR '' ''" by simp
  obtain p ps where sp: "str_split_sep CHR '' '' cs = p # ps"
    using str_split_sep_nonempty [of "CHR '' ''" cs] by (cases "str_split_sep CHR '' '' cs") auto
  show ?case
  proof (cases "c = CHR '' ''")
    case True
    with Cons.prems have "isspace c" by simp
    with True Cons.IH [OF cs, of "[]"] sp show ?thesis by simp
  next
    case False
    with Cons.prems have "\<not> isspace c" by simp
    with False Cons.IH [OF cs, of "w @ [c]"] sp show ?thesis by simp
  qed
qed

lemma str_split_plain:
  assumes "\<forall>c \<in> set s. plain_char c"
  shows "str_split s = text_to_word_sequence s"
proof -
  from assms have sp: "\<forall>c \<in> set s. isspace c \<longleftrightarrow> c = CHR '' ''"
    by (simp add: plain_space)
  obtain p ps where "str_split_sep CHR '' '' s = p # ps"
    using str_split_sep_nonempty [of "CHR '' ''" s] by (cases "str_split_sep CHR '' '' s") auto
  with split_from_sep [OF sp, of "[]"]
  have "str_split s = filter (\<lambda>i. i \<noteq> []) (str_split_sep CHR '' '' s)"
    by (simp add: str_split_def)
  with text_to_word_sequence_plain [OF assms] show ?thesis by simp
qed

lemma str_split_sep_append:
  "str_split_sep sep (a @ sep # b) = str_split_sep sep a @ str_split_sep sep b"
proof (induction a)
  case Nil
  then show ?case by simp
next
  case (Cons c a)
  obtain p ps where "str_split_sep sep a = p # ps"
    using str_split_sep_nonempty [of sep a] by (cases "str_split_sep sep a") auto
  with Cons show ?case by simp
qed

lemma normal_word_plain: "normal_word w \<Longrightarrow> \<forall>c \<in> set w. plain_char c"
proof -
  assume "normal_word w"
  then have a: "list_all isalpha_char w" and l: "map lower_char w = w"
    by (simp_all add: normal_word_def str_isalpha_def str_lower_def)
  from l have "\<forall>c \<in> set w. lower_char c = c"
    by (induction w) auto
  with a show ?thesis by (auto simp: plain_char_def list_all_iff)
qed

lemma str_join_plain:
  "\<forall>w \<in> set ws. \<forall>c \<in> set w. plain_char c \<Longrightarrow> \<forall>c \<in> set (str_join '' '' ws). plain_char c"
  by (induction "'' ''" ws rule: str_join.induct) (auto simp: plain_char_def)

lemma clean_desc_plain: "\<forall>c \<in> set (clean_desc x). plain_char c"
  unfolding clean_desc_def
  using clean_words_normal [of "str_split x"] normal_word_plain
  by (intro str_join_plain) blast

lemma framed_line_words:
  assumes "\<forall>c \<in> set desc. plain_char c"
  shows "str_split (''startseq '' @ desc @ '' endseq'')
           = text_to_word_sequence (''startseq '' @ desc @ '' endseq'')"
    and "2 \<le> length (text_to_word_sequence (''startseq '' @ desc @ '' endseq''))"
proof -
  let ?line = "''startseq '' @ desc @ '' endseq''"
  have markers: "\<forall>c \<in> set ''startseq ''. plain_char c" "\<forall>c \<in> set '' endseq''. plain_char c"
    by (simp_all add: plain_char_def isalpha_char_def lower_char_def)
  with assms have plain: "\<forall>c \<in> set ?line. plain_char c" by auto
  from str_split_plain [OF plain] show "str_split ?line = text_to_word_sequence ?line" .
  have "?line = ''startseq'' @ CHR '' '' # (desc @ CHR '' '' # ''endseq'')" by simp
  then have "str_split_sep CHR '' '' ?line
      = str_split_sep CHR '' '' ''startseq'' @ str_split_sep CHR '' '' desc
          @ str_split_sep CHR '' '' ''endseq''"
    by (simp only: str_split_sep_append)
  also have "str_split_sep CHR '' '' ''startseq'' = [''startseq'']" by simp
  also have "str_split_sep CHR '' '' ''endseq'' = [''endseq'']" by simp
  finally have sss: "str_split_sep CHR '' '' ?line
      = [''startseq''] @ str_split_sep CHR '' '' desc @ [''endseq'']" .
  have "text_to_word_sequence ?line = filter (\<lambda>i. i \<noteq> []) (str_split_sep CHR '' '' ?line)"
    by (rule text_to_word_sequence_plain [OF plain])
  then have "text_to_word_sequence ?line
      = filter (\<lambda>i. i \<noteq> []) ([''startseq''] @ str_split_sep CHR '' '' desc @ [''endseq''])"
    by (simp only: sss)
  then have "length (text_to_word_sequence ?line)
      = length (filter (\<lambda>i. i \<noteq> []) ([''startseq''] @ str_split_sep CHR '' '' desc @ [''endseq'']))"
    by (rule arg_cong)
  then show "2 \<le> length (text_to_word_sequence ?line)" by simp
qed


subsection \<open>Every image of the training set has examples\<close>

lemma max_len_bound:
  assumes "line \<in> set (descriptions_to_lines d)"
  shows "length (str_split line) \<le> fst (max_len loader d)"
proof -
  let ?ns = "map (\<lambda>s. length (str_split s)) (descriptions_to_lines d)"
  from assms have ne: "?ns \<noteq> []" by auto
  from assms have "length (str_split line) \<in> set ?ns" by auto
  then have "length (str_split line) \<le> Max (set ?ns)" by (intro Max_ge) simp_all
  with py_max_Max [OF ne] ne show ?thesis by (simp add: max_len_def Let_def)
qed

lemma lines_of_description:
  assumes "distinct (map fst d)" and "(k, l) \<in> set d" and "desc \<in> set l"
  shows "''startseq '' @ desc @ '' endseq'' \<in> set (descriptions_to_lines d)"
proof -
  define F where "F = (\<lambda>img_id. map (\<lambda>desc. ''startseq '' @ desc @ '' endseq'')
                                   (case map_of d img_id of None \<Rightarrow> [] | Some l \<Rightarrow> l))"
  have dl: "descriptions_to_lines d = concat (map F (map fst d))"
    unfolding descriptions_to_lines_def F_def ..
  from assms(1,2) have mo: "map_of d k = Some l" by (rule map_of_is_SomeI)
  have "F k = map (\<lambda>desc. ''startseq '' @ desc @ '' endseq'') l"
    unfolding F_def mo by simp
  with assms(3) have "''startseq '' @ desc @ '' endseq'' \<in> set (F k)"
    by (simp only: set_map) (rule imageI)
  moreover from assms(2) have "k \<in> set (map fst d)" by force
  then have "F k \<in> set (map F (map fst d))" by force
  ultimately show ?thesis unfolding dl set_concat by blast
qed

lemma keys_filter_map:
  "map fst (map (\<lambda>(k, l). (k, h l)) (filter (\<lambda>(k, l). p k) d)) = filter p (map fst d)"
  by (induction d) auto

lemma train_image_triples:
  assumes mem: "(k, lines) \<in> set (train_filtered loader source ex all_features)"
  defines "tok \<equiv> fit_on_texts (descriptions_to_lines (train_cleaned loader source ex))"
  shows "\<exists>f. all_features k = Some f \<and> lines \<noteq> [] \<and>
           map_of (train_filtered loader source ex all_features) k = Some lines \<and>
           image_triples (train_filtered loader source ex all_features) all_features tok
             (fst (max_len loader (train_cleaned loader source ex)))
             (length (word_index tok) + 1) k
             = Inr (spec_image_triples (train_filtered loader source ex all_features) all_features tok
                      (fst (max_len loader (train_cleaned loader source ex)))
                      (length (word_index tok) + 1) k) \<and>
           spec_image_triples (train_filtered loader source ex all_features) all_features tok
                      (fst (max_len loader (train_cleaned loader source ex)))
                      (length (word_index tok) + 1) k \<noteq> [] \<and>
           (\<forall>line \<in> set lines.
              length (texts_to_sequences tok line) = length (str_split line) \<and>
              2 \<le> length (texts_to_sequences tok line) \<and>
              length (texts_to_sequences tok line) \<le> fst (max_len loader (train_cleaned loader source ex)) \<and>
              (\<forall>y \<in> set (texts_to_sequences tok line). y < length (word_index tok) + 1))"
proof -
  let ?c = "train_cleaned loader source ex"
  let ?fl = "train_filtered loader source ex all_features"
  let ?m = "fst (max_len loader ?c)"
  let ?v = "length (word_index tok) + 1"
  from train_cleaned_invariant [of loader source ex]
  have dist: "distinct (map fst ?c)" and ne: "\<forall>l \<in> snd ` set ?c. l \<noteq> []" by blast+
  from mem obtain l where kl: "(k, l) \<in> set ?c" and feat: "all_features k \<noteq> None"
    and lines: "lines = map (\<lambda>desc. ''startseq '' @ desc @ '' endseq'') l"
    by (auto simp: train_filtered_def)
  from feat obtain f where f: "all_features k = Some f" by auto
  from kl ne have "l \<noteq> []" by force
  with lines have lne: "lines \<noteq> []" by simp
  have "map fst ?fl = filter (\<lambda>k. all_features k \<noteq> None) (map fst ?c)"
    unfolding train_filtered_def by (rule keys_filter_map)
  with dist have "distinct (map fst ?fl)" by simp
  from map_of_is_SomeI [OF this mem] have look: "map_of ?fl k = Some lines" .
  have each: "\<forall>line \<in> set lines.
                length (texts_to_sequences tok line) = length (str_split line) \<and>
                2 \<le> length (texts_to_sequences tok line) \<and>
                length (texts_to_sequences tok line) \<le> ?m \<and>
                (\<forall>y \<in> set (texts_to_sequences tok line). y < ?v)"
  proof
    fix line assume "line \<in> set lines"
    with lines obtain desc where d: "desc \<in> set l" and line: "line = ''startseq '' @ desc @ '' endseq''"
      by auto
    from train_cleaned_values [OF kl d] obtain x where "desc = clean_desc x" ..
    then have plain: "\<forall>c \<in> set desc. plain_char c" by (simp add: clean_desc_plain)
    from lines_of_description [OF dist kl d] have inl: "line \<in> set (descriptions_to_lines ?c)"
      by (simp add: line)
    from fitted_sequence [OF inl]
    have len: "length (texts_to_sequences tok line) = length (text_to_word_sequence line)"
      and voc: "\<forall>y \<in> set (texts_to_sequences tok line). y < ?v"
      by (simp_all add: tok_def)
    from framed_line_words [OF plain]
    have sp: "str_split line = text_to_word_sequence line" and two: "2 \<le> length (text_to_word_sequence line)"
      by (simp_all only: line)
    from max_len_bound [OF inl, of loader] sp have "length (text_to_word_sequence line) \<le> ?m" by simp
    with len two voc sp
    show "length (texts_to_sequences tok line) = length (str_split line) \<and>
                2 \<le> length (texts_to_sequences tok line) \<and>
                length (texts_to_sequences tok line) \<le> ?m \<and>
                (\<forall>y \<in> set (texts_to_sequences tok line). y < ?v)"
      by simp
  qed
  let ?g = "\<lambda>line. spec_caption_triples f ?m ?v (texts_to_sequences tok line)"
  have "\<forall>line \<in> set lines. caption_triples tok ?m ?v f line = Inr (?g line)"
  proof
    fix line assume "line \<in> set lines"
    with each have len: "length (texts_to_sequences tok line) \<le> ?m"
      and voc: "\<forall>y \<in> set (texts_to_sequences tok line). y < ?v" by blast+
    from caption_triples_ok [OF len voc, of f]
    show "caption_triples tok ?m ?v f line = Inr (?g line)"
      unfolding spec_caption_triples_def .
  qed
  from collect_all_Inr [OF this]
  have img: "image_triples ?fl all_features tok ?m ?v k = Inr (concat (map ?g lines))"
    by (simp add: image_triples_def look f)
  have spec: "spec_image_triples ?fl all_features tok ?m ?v k = concat (map ?g lines)"
    by (simp add: spec_image_triples_def look f)
  from lne obtain line rest where lr: "lines = line # rest" by (cases lines) auto
  with each have "2 \<le> length (texts_to_sequences tok line)" by simp
  then have "?g line \<noteq> []" by (auto simp: spec_caption_triples_def)
  with lr have "concat (map ?g lines) \<noteq> []" by simp
  then have nonempty: "spec_image_triples ?fl all_features tok ?m ?v k \<noteq> []"
    unfolding spec by assumption
  have img': "image_triples ?fl all_features tok ?m ?v k
                = Inr (spec_image_triples ?fl all_features tok ?m ?v k)"
    unfolding spec by (rule img)
  from f lne look img' nonempty each show ?thesis by blast
qed

subsection \<open>Batches\<close>

lemma slices_parts:
  assumes "0 < batch_size"
  shows "length xs \<le> n \<Longrightarrow>
         concat (slices n batch_size xs) = xs \<and>
         (\<forall>s \<in> set (slices n batch_size xs). s \<noteq> [] \<and> set s \<subseteq> set xs) \<and>
         (xs \<noteq> [] \<longrightarrow> slices n batch_size xs \<noteq> [])"
proof (induction n arbitrary: xs)
  case 0
  then show ?case by simp
next
  case (Suc n)
  show ?case
  proof (cases "xs = []")
    case True
    then show ?thesis by simp
  next
    case False
    with assms Suc.prems have "length (drop batch_size xs) \<le> n" by (cases xs) auto
    from Suc.IH [OF this]
    have c: "concat (slices n batch_size (drop batch_size xs)) = drop batch_size xs"
      and p: "\<forall>s \<in> set (slices n batch_size (drop batch_size xs)).
                s \<noteq> [] \<and> set s \<subseteq> set (drop batch_size xs)"
      by simp_all
    from p have "\<forall>s \<in> set (slices n batch_size (drop batch_size xs)). s \<noteq> [] \<and> set s \<subseteq> set xs"
      using set_drop_subset [of batch_size xs] by blast
    moreover from False assms have "take batch_size xs \<noteq> []" by (cases xs) auto
    moreover have "set (take batch_size xs) \<subseteq> set xs" by (rule set_take_subset)
    ultimately show ?thesis using False c by simp
  qed
qed

lemma pass_batches_all:
  "\<forall>s \<in> set ss. batch s = Inr (g s) \<and> g s \<noteq> [] \<Longrightarrow> pass_batches batch ss = (map g ss, None)"
  by (induction ss) auto

lemma batch_triples_all:
  assumes "\<forall>k \<in> set ids. image_triples d features tok m v k = Inr (g k)"
  shows "batch_triples d features tok m v ids = Inr (concat (map g ids))"
  using collect_all_Inr [OF assms] by (simp add: batch_triples_def)


lemma concat_batches:
  "concat (map (\<lambda>s. concat (map g s)) ss) = concat (map g (concat ss))"
  by (induction ss) auto

lemma train_data_some:
  assumes "snd (train_model_data loader source ex all_features) = Some td"
  shows "td_descriptions td = train_filtered loader source ex all_features"
    and "td_image_ids td = map fst (train_filtered loader source ex all_features)"
    and "td_tokenizer td = fit_on_texts (descriptions_to_lines (train_cleaned loader source ex))"
    and "td_max_length td = fst (max_len loader (train_cleaned loader source ex))"
    and "td_vocab_size td
           = length (word_index (fit_on_texts (descriptions_to_lines (train_cleaned loader source ex)))) + 1"
    and "train_filtered loader source ex all_features \<noteq> []"
proof -
  let ?fl = "train_filtered loader source ex all_features"
  let ?tok = "fit_on_texts (descriptions_to_lines (train_cleaned loader source ex))"
  let ?td = "\<lparr>td_descriptions = ?fl, td_image_ids = map fst ?fl, td_tokenizer = ?tok,
              td_max_length = fst (max_len loader (train_cleaned loader source ex)),
              td_vocab_size = length (word_index ?tok) + 1\<rparr>"
  from train_model_data_eq [of loader source ex all_features] obtain out
    where eq: "train_model_data loader source ex all_features =
                 (if ?fl = [] then
                    (out @ [''No matching image features found for descriptions. Training aborted.''], None)
                  else (out, Some ?td))"
    by blast
  from assms show ne: "?fl \<noteq> []" unfolding eq by (auto split: if_splits)
  with assms have td: "td = ?td" unfolding eq by simp
  show "td_descriptions td = ?fl" and "td_image_ids td = map fst ?fl" and "td_tokenizer td = ?tok"
    and "td_max_length td = fst (max_len loader (train_cleaned loader source ex))"
    and "td_vocab_size td = length (word_index ?tok) + 1"
    unfolding td by simp_all
qed

lemma train_data_image:
  assumes some: "snd (train_model_data loader source ex all_features) = Some td"
    and k: "img_id \<in> set (td_image_ids td)"
  shows "\<exists>embedding desc_lines.
           all_features img_id = Some embedding \<and>
           map_of (td_descriptions td) img_id = Some desc_lines \<and> desc_lines \<noteq> [] \<and>
           image_triples (td_descriptions td) all_features (td_tokenizer td) (td_max_length td)
             (td_vocab_size td) img_id
             = Inr (spec_image_triples (td_descriptions td) all_features (td_tokenizer td)
                      (td_max_length td) (td_vocab_size td) img_id) \<and>
           spec_image_triples (td_descriptions td) all_features (td_tokenizer td)
                      (td_max_length td) (td_vocab_size td) img_id \<noteq> [] \<and>
           (\<forall>l \<in> set desc_lines.
              length (texts_to_sequences (td_tokenizer td) l) = length (str_split l) \<and>
              2 \<le> length (texts_to_sequences (td_tokenizer td) l) \<and>
              length (texts_to_sequences (td_tokenizer td) l) \<le> td_max_length td \<and>
              (\<forall>y \<in> set (texts_to_sequences (td_tokenizer td) l). y < td_vocab_size td))"
proof -
  note td = train_data_some [OF some]
  from k obtain lines where "(img_id, lines) \<in> set (train_filtered loader source ex all_features)"
    unfolding td(2) by force
  from train_image_triples [OF this] show ?thesis
    unfolding td(1) td(3) td(4) td(5) by blast
qed

text \<open>
  C1. In the train path, for a positive batch size, the generator is called on a mapping, a
  vocabulary and a max length for which the following holds. For every image of the training
  set and every framed caption of it, the caption is encoded to an index sequence whose length
  \<open>n\<close> is the number of tokens of the framed caption, at least 2 and at most the max length;
  the caption contributes exactly \<open>n - 1\<close> triples, one per prefix length \<open>i\<close> from 1 to
  \<open>n - 1\<close>: the image's embedding, the prefix left-padded with zeros to the max length, and the
  one-hot vector of the index that follows the prefix. One run over the dataset raises nothing
  and yields, slice of image ids by slice, the triples of the images of the slice in order, so
  that all the batches together are the triples of all the images, each once; and the generator
  yields these batches cyclically, forever.
\<close>

theorem data_generator_triples:
  fixes td :: train_data and all_features :: "string \<rightharpoonup> 'f"
  defines "D \<equiv> td_descriptions td" and "T \<equiv> td_tokenizer td"
    and "M \<equiv> td_max_length td" and "V \<equiv> td_vocab_size td"
  assumes some: "snd (train_model_data loader source ex all_features) = Some td"
    and bs: "0 < batch_size"
  shows "data_generator_pass batch_size D all_features T M V (td_image_ids td)
           = (map (\<lambda>batch_image_ids. concat (map (spec_image_triples D all_features T M V) batch_image_ids))
                  (slices (length (td_image_ids td)) batch_size (td_image_ids td)),
              None)
         \<and> concat (fst (data_generator_pass batch_size D all_features T M V (td_image_ids td)))
             = concat (map (spec_image_triples D all_features T M V) (td_image_ids td))
         \<and> fst (data_generator_pass batch_size D all_features T M V (td_image_ids td)) \<noteq> []
         \<and> (\<forall>j. data_generator batch_size D all_features T M V (td_image_ids td) j
                  = Some (Inr (fst (data_generator_pass batch_size D all_features T M V (td_image_ids td))
                                 ! (j mod length (fst (data_generator_pass batch_size D all_features T M V
                                                          (td_image_ids td)))))))
         \<and> (\<forall>img_id \<in> set (td_image_ids td).
              \<exists>embedding desc_lines.
                all_features img_id = Some embedding \<and>
                map_of D img_id = Some desc_lines \<and>
                spec_image_triples D all_features T M V img_id
                  = concat (map (\<lambda>l. spec_caption_triples embedding M V (texts_to_sequences T l)) desc_lines) \<and>
                (\<forall>l \<in> set desc_lines.
                   length (texts_to_sequences T l) = length (str_split l) \<and>
                   2 \<le> length (texts_to_sequences T l) \<and>
                   length (texts_to_sequences T l) \<le> M \<and>
                   (\<forall>y \<in> set (texts_to_sequences T l). y < V) \<and>
                   length (spec_caption_triples embedding M V (texts_to_sequences T l))
                     = length (str_split l) - 1))"
proof -
  let ?ids = "td_image_ids td"
  let ?g = "spec_image_triples D all_features T M V"
  let ?ss = "slices (length ?ids) batch_size ?ids"
  let ?b = "\<lambda>batch_image_ids. concat (map ?g batch_image_ids)"
  note img = train_data_image [OF some, folded D_def T_def M_def V_def]
  from train_data_some(2,6) [OF some] have ids_ne: "?ids \<noteq> []" by simp
  from slices_parts [OF bs, of ?ids "length ?ids"]
  have cat: "concat ?ss = ?ids"
    and parts: "\<forall>s \<in> set ?ss. s \<noteq> [] \<and> set s \<subseteq> set ?ids"
    and ss_ne: "?ss \<noteq> []"
    using ids_ne by simp_all
  have batch: "\<forall>s \<in> set ?ss. batch_triples D all_features T M V s = Inr (?b s) \<and> ?b s \<noteq> []"
  proof
    fix s assume s: "s \<in> set ?ss"
    with parts have sne: "s \<noteq> []" and sub: "set s \<subseteq> set ?ids" by blast+
    have each: "\<forall>k \<in> set s. image_triples D all_features T M V k = Inr (?g k)"
    proof
      fix k assume "k \<in> set s"
      with sub have "k \<in> set ?ids" by blast
      from img [OF this] show "image_triples D all_features T M V k = Inr (?g k)" by blast
    qed
    from sne obtain k rest where kr: "s = k # rest" by (cases s) auto
    with sub have "k \<in> set ?ids" by simp
    from img [OF this] have "?g k \<noteq> []" by blast
    with kr have "?b s \<noteq> []" by simp
    with batch_triples_all [OF each]
    show "batch_triples D all_features T M V s = Inr (?b s) \<and> ?b s \<noteq> []" by simp
  qed
  from pass_batches_all [OF this] bs
  have pass: "data_generator_pass batch_size D all_features T M V ?ids = (map ?b ?ss, None)"
    by (simp add: data_generator_pass_def)
  have all: "concat (map ?b ?ss) = concat (map ?g ?ids)"
    using concat_batches [of ?g ?ss] cat by simp
  from ss_ne have ne: "map ?b ?ss \<noteq> []" by simp
  have gen: "\<forall>j. data_generator batch_size D all_features T M V ?ids j
                  = Some (Inr (map ?b ?ss ! (j mod length (map ?b ?ss))))"
    unfolding data_generator_def pass using ne by simp
  have caps: "\<forall>img_id \<in> set ?ids.
              \<exists>embedding desc_lines.
                all_features img_id = Some embedding \<and>
                map_of D img_id = Some desc_lines \<and>
                ?g img_id
                  = concat (map (\<lambda>l. spec_caption_triples embedding M V (texts_to_sequences T l)) desc_lines) \<and>
                (\<forall>l \<in> set desc_lines.
                   length (texts_to_sequences T l) = length (str_split l) \<and>
                   2 \<le> length (texts_to_sequences T l) \<and>
                   length (texts_to_sequences T l) \<le> M \<and>
                   (\<forall>y \<in> set (texts_to_sequences T l). y < V) \<and>
                   length (spec_caption_triples embedding M V (texts_to_sequences T l))
                     = length (str_split l) - 1)"
  proof
    fix img_id assume "img_id \<in> set ?ids"
    from img [OF this] obtain embedding desc_lines
      where f: "all_features img_id = Some embedding"
        and d: "map_of D img_id = Some desc_lines"
        and e: "\<forall>l \<in> set desc_lines.
              length (texts_to_sequences T l) = length (str_split l) \<and>
              2 \<le> length (texts_to_sequences T l) \<and>
              length (texts_to_sequences T l) \<le> M \<and>
              (\<forall>y \<in> set (texts_to_sequences T l). y < V)"
      by blast
    have g: "?g img_id
               = concat (map (\<lambda>l. spec_caption_triples embedding M V (texts_to_sequences T l)) desc_lines)"
      by (simp add: spec_image_triples_def f d)
    have n: "\<forall>l \<in> set desc_lines.
               length (spec_caption_triples embedding M V (texts_to_sequences T l)) = length (str_split l) - 1"
      using e by (simp add: spec_caption_triples_def)
    from f d g e n
    show "\<exists>embedding desc_lines.
                all_features img_id = Some embedding \<and>
                map_of D img_id = Some desc_lines \<and>
                ?g img_id
                  = concat (map (\<lambda>l. spec_caption_triples embedding M V (texts_to_sequences T l)) desc_lines) \<and>
                (\<forall>l \<in> set desc_lines.
                   length (texts_to_sequences T l) = length (str_split l) \<and>
                   2 \<le> length (texts_to_sequences T l) \<and>
                   length (texts_to_sequences T l) \<le> M \<and>
                   (\<forall>y \<in> set (texts_to_sequences T l). y < V) \<and>
                   length (spec_caption_triples embedding M V (texts_to_sequences T l))
                     = length (str_split l) - 1)"
      by blast
  qed
  from pass all ne gen caps show ?thesis by simp
qed


subsection \<open>The spec's example, end to end\<close>

lemma example_load:
  "load_descriptions
     \<lparr>captions_filepath = ''captions.txt'', images_dir = ''images'', max_description_length = 0\<rparr>
     (FileLines [''image,caption'', ''img1.jpg,A cat sits.'', ''img2.jpg,A dog!'']) (\<lambda>_. True)
   = ([(''img1.jpg'', [''A cat sits.'']), (''img2.jpg'', [''A dog!''])], [])"
  by (simp add: load_descriptions_def load_line_def str_split_once_def str_strip_def isspace_def)

lemma example_cleaned:
  "train_cleaned
     \<lparr>captions_filepath = ''captions.txt'', images_dir = ''images'', max_description_length = 0\<rparr>
     (FileLines [''image,caption'', ''img1.jpg,A cat sits.'', ''img2.jpg,A dog!'']) (\<lambda>_. True)
   = [(''img1.jpg'', [''a cat sits'']), (''img2.jpg'', [''a dog''])]"
  unfolding train_cleaned_def example_load
  by (simp add: clean_descriptions_def clean_desc_def str_split_def str_lower_def lower_char_def
      str_translate_def string_punctuation_def str_isalpha_def isalpha_char_def isspace_def
      char_of_nat_eq)

lemma example_lines:
  "descriptions_to_lines [(''img1.jpg'', [''a cat sits'']), (''img2.jpg'', [''a dog''])]
   = [''startseq a cat sits endseq'', ''startseq a dog endseq'']"
  by (simp add: descriptions_to_lines_def)

lemma example_max_len:
  "fst (max_len loader [(''img1.jpg'', [''a cat sits'']), (''img2.jpg'', [''a dog''])]) = 5"
  by (simp add: max_len_def example_lines Let_def str_split_def isspace_def)

lemma example_train_data:
  "snd (train_model_data
     \<lparr>captions_filepath = ''captions.txt'', images_dir = ''images'', max_description_length = 0\<rparr>
     (FileLines [''image,caption'', ''img1.jpg,A cat sits.'', ''img2.jpg,A dog!'']) (\<lambda>_. True)
     [''img1.jpg'' \<mapsto> 10::nat, ''img2.jpg'' \<mapsto> 20])
   = Some \<lparr>td_descriptions = [(''img1.jpg'', [''startseq a cat sits endseq'']),
                               (''img2.jpg'', [''startseq a dog endseq''])],
           td_image_ids = [''img1.jpg'', ''img2.jpg''],
           td_tokenizer =
             \<lparr>word_index = [(''startseq'', 1), (''a'', 2), (''endseq'', 3), (''cat'', 4),
                            (''sits'', 5), (''dog'', 6)],
              index_word = [(1, ''startseq''), (2, ''a''), (3, ''endseq''), (4, ''cat''),
                            (5, ''sits''), (6, ''dog'')]\<rparr>,
           td_max_length = 5,
           td_vocab_size = 7\<rparr>"
proof -
  let ?L = "\<lparr>captions_filepath = ''captions.txt'', images_dir = ''images'', max_description_length = 0\<rparr>"
  let ?S = "FileLines [''image,caption'', ''img1.jpg,A cat sits.'', ''img2.jpg,A dog!'']"
  let ?F = "[''img1.jpg'' \<mapsto> 10::nat, ''img2.jpg'' \<mapsto> 20]"
  have fl: "train_filtered ?L ?S (\<lambda>_. True) ?F
              = [(''img1.jpg'', [''startseq a cat sits endseq'']),
                 (''img2.jpg'', [''startseq a dog endseq''])]"
    unfolding train_filtered_def example_cleaned by simp
  from train_model_data_eq [of ?L ?S "\<lambda>_. True" ?F]
  show ?thesis
    unfolding fl example_cleaned example_lines example_tokenizer example_max_len
    by auto
qed

lemma example_sequences:
  "texts_to_sequences
     \<lparr>word_index = [(''startseq'', Suc 0), (''a'', 2), (''endseq'', 3), (''cat'', 4),
                    (''sits'', 5), (''dog'', 6)],
      index_word = [(Suc 0, ''startseq''), (2, ''a''), (3, ''endseq''), (4, ''cat''),
                    (5, ''sits''), (6, ''dog'')]\<rparr> ''startseq a cat sits endseq'' = [1, 2, 4, 5, 3]"
  "texts_to_sequences
     \<lparr>word_index = [(''startseq'', Suc 0), (''a'', 2), (''endseq'', 3), (''cat'', 4),
                    (''sits'', 5), (''dog'', 6)],
      index_word = [(Suc 0, ''startseq''), (2, ''a''), (3, ''endseq''), (4, ''cat''),
                    (5, ''sits''), (6, ''dog'')]\<rparr> ''startseq a dog endseq'' = [1, 2, 6, 3]"
  by (simp_all add: texts_to_sequences_def text_eval)

theorem data_generator_triples_witness:
  "\<exists>td. snd (train_model_data
              \<lparr>captions_filepath = ''captions.txt'', images_dir = ''images'', max_description_length = 0\<rparr>
              (FileLines [''image,caption'', ''img1.jpg,A cat sits.'', ''img2.jpg,A dog!'']) (\<lambda>_. True)
              [''img1.jpg'' \<mapsto> 10::nat, ''img2.jpg'' \<mapsto> 20]) = Some td
      \<and> (0::nat) < 1
      \<and> data_generator_pass 1 (td_descriptions td) [''img1.jpg'' \<mapsto> 10::nat, ''img2.jpg'' \<mapsto> 20]
           (td_tokenizer td) (td_max_length td) (td_vocab_size td) (td_image_ids td)
         = ([[(10, [0, 0, 0, 0, 1], [0, 0, 1, 0, 0, 0, 0]),
              (10, [0, 0, 0, 1, 2], [0, 0, 0, 0, 1, 0, 0]),
              (10, [0, 0, 1, 2, 4], [0, 0, 0, 0, 0, 1, 0]),
              (10, [0, 1, 2, 4, 5], [0, 0, 0, 1, 0, 0, 0])],
             [(20, [0, 0, 0, 0, 1], [0, 0, 1, 0, 0, 0, 0]),
              (20, [0, 0, 0, 1, 2], [0, 0, 0, 0, 0, 0, 1]),
              (20, [0, 0, 1, 2, 6], [0, 0, 0, 1, 0, 0, 0])]],
            None)"
proof -
  have pos: "(0::nat) < 1" by simp
  from data_generator_triples [OF example_train_data pos, THEN conjunct1]
  have "data_generator_pass 1
          [(''img1.jpg'', [''startseq a cat sits endseq'']), (''img2.jpg'', [''startseq a dog endseq''])]
          [''img1.jpg'' \<mapsto> 10::nat, ''img2.jpg'' \<mapsto> 20]
          \<lparr>word_index = [(''startseq'', 1), (''a'', 2), (''endseq'', 3), (''cat'', 4),
                         (''sits'', 5), (''dog'', 6)],
           index_word = [(1, ''startseq''), (2, ''a''), (3, ''endseq''), (4, ''cat''),
                         (5, ''sits''), (6, ''dog'')]\<rparr> 5 7 [''img1.jpg'', ''img2.jpg'']
        = ([[(10, [0, 0, 0, 0, 1], [0, 0, 1, 0, 0, 0, 0]),
              (10, [0, 0, 0, 1, 2], [0, 0, 0, 0, 1, 0, 0]),
              (10, [0, 0, 1, 2, 4], [0, 0, 0, 0, 0, 1, 0]),
              (10, [0, 1, 2, 4, 5], [0, 0, 0, 1, 0, 0, 0])],
             [(20, [0, 0, 0, 0, 1], [0, 0, 1, 0, 0, 0, 0]),
              (20, [0, 0, 0, 1, 2], [0, 0, 0, 0, 0, 0, 1]),
              (20, [0, 0, 1, 2, 6], [0, 0, 0, 1, 0, 0, 0])]],
            None)"
    apply (simp add: spec_image_triples_def spec_caption_triples_def example_sequences)
    apply (simp add: eval_nat_numeral)
    done
  with example_train_data pos show ?thesis by simp
qed

subsection \<open>The emptiness check\<close>

lemma train_filtered_keys:
  "map fst (train_filtered loader source ex all_features)
     = filter (\<lambda>k. all_features k \<noteq> None) (map fst (fst (load_descriptions loader source ex)))"
proof -
  have "map fst (train_filtered loader source ex all_features)
          = filter (\<lambda>k. all_features k \<noteq> None) (map fst (train_cleaned loader source ex))"
    unfolding train_filtered_def by (rule keys_filter_map)
  with train_cleaned_invariant [of loader source ex] show ?thesis by simp
qed

lemma train_filtered_empty:
  "train_filtered loader source ex all_features = [] \<longleftrightarrow>
     (\<forall>k \<in> fst ` set (fst (load_descriptions loader source ex)). all_features k = None)"
proof -
  have "train_filtered loader source ex all_features = [] \<longleftrightarrow>
          map fst (train_filtered loader source ex all_features) = []"
    by simp
  also have "\<dots> \<longleftrightarrow> (\<forall>k \<in> set (map fst (fst (load_descriptions loader source ex))). all_features k = None)"
    unfolding train_filtered_keys by (simp add: filter_empty_conv)
  finally show ?thesis by simp
qed

lemma train_model_data_none:
  "snd (train_model_data loader source ex all_features) = None \<longleftrightarrow>
     train_filtered loader source ex all_features = []"
  using train_model_data_eq [of loader source ex all_features] by (auto split: if_splits)

lemma train_model_data_message:
  assumes "snd (train_model_data loader source ex all_features) = None"
  shows "last (fst (train_model_data loader source ex all_features))
           = ''No matching image features found for descriptions. Training aborted.''"
proof -
  from assms have "train_filtered loader source ex all_features = []"
    by (simp add: train_model_data_none)
  with train_model_data_eq [of loader source ex all_features] show ?thesis by auto
qed

text \<open>
  C3. In the train path the training set is made of the images of the caption store (each has
  at least one caption, and its file exists) that have a cached embedding: an image without a
  caption or without an embedding is not in it. When no image is left, \<open>train_model\<close> prints
  \<open>No matching image features found for descriptions. Training aborted.\<close> last and returns
  before any training; otherwise every image of the training set has at least one framed
  caption and the generator produces at least one training example for it, so that training
  never proceeds on nothing.
\<close>

theorem train_model_empty_aborts:
  "(snd (train_model_data loader source ex all_features) = None \<longleftrightarrow>
      (\<forall>k \<in> fst ` set (fst (load_descriptions loader source ex)). all_features k = None))
   \<and> (snd (train_model_data loader source ex all_features) = None \<longrightarrow>
        last (fst (train_model_data loader source ex all_features))
          = ''No matching image features found for descriptions. Training aborted.'')
   \<and> (\<forall>td. snd (train_model_data loader source ex all_features) = Some td \<longrightarrow>
        td_image_ids td
          = filter (\<lambda>k. all_features k \<noteq> None) (map fst (fst (load_descriptions loader source ex)))
        \<and> td_image_ids td \<noteq> []
        \<and> (\<forall>k \<in> set (td_image_ids td).
              \<exists>f captions lines ts.
                all_features k = Some f \<and>
                map_of (fst (load_descriptions loader source ex)) k = Some captions \<and> captions \<noteq> [] \<and>
                map_of (td_descriptions td) k = Some lines \<and> length lines = length captions \<and>
                image_triples (td_descriptions td) all_features (td_tokenizer td)
                  (td_max_length td) (td_vocab_size td) k = Inr ts \<and>
                ts \<noteq> []))"
proof (intro conjI allI impI)
  show "snd (train_model_data loader source ex all_features) = None \<longleftrightarrow>
      (\<forall>k \<in> fst ` set (fst (load_descriptions loader source ex)). all_features k = None)"
    unfolding train_model_data_none by (rule train_filtered_empty)
next
  assume "snd (train_model_data loader source ex all_features) = None"
  then show "last (fst (train_model_data loader source ex all_features))
          = ''No matching image features found for descriptions. Training aborted.''"
    by (rule train_model_data_message)
next
  fix td assume some: "snd (train_model_data loader source ex all_features) = Some td"
  note td = train_data_some [OF some]
  show "td_image_ids td
          = filter (\<lambda>k. all_features k \<noteq> None) (map fst (fst (load_descriptions loader source ex)))"
    unfolding td(2) by (rule train_filtered_keys)
  from td(6) show "td_image_ids td \<noteq> []" unfolding td(2) by simp
  show "\<forall>k \<in> set (td_image_ids td).
              \<exists>f captions lines ts.
                all_features k = Some f \<and>
                map_of (fst (load_descriptions loader source ex)) k = Some captions \<and> captions \<noteq> [] \<and>
                map_of (td_descriptions td) k = Some lines \<and> length lines = length captions \<and>
                image_triples (td_descriptions td) all_features (td_tokenizer td)
                  (td_max_length td) (td_vocab_size td) k = Inr ts \<and>
                ts \<noteq> []"
  proof
    fix k assume k: "k \<in> set (td_image_ids td)"
    from train_data_image [OF some k] obtain f lines
      where f: "all_features k = Some f"
        and l: "map_of (td_descriptions td) k = Some lines"
        and t: "image_triples (td_descriptions td) all_features (td_tokenizer td) (td_max_length td)
                  (td_vocab_size td) k
                = Inr (spec_image_triples (td_descriptions td) all_features (td_tokenizer td)
                      (td_max_length td) (td_vocab_size td) k)"
        and n: "spec_image_triples (td_descriptions td) all_features (td_tokenizer td)
                      (td_max_length td) (td_vocab_size td) k \<noteq> []"
      by blast
    let ?d = "fst (load_descriptions loader source ex)"
    from load_descriptions_invariant [of loader source ex]
    have dist: "distinct (map fst ?d)" and ne: "\<forall>c \<in> snd ` set ?d. c \<noteq> []" by simp_all
    have cl: "train_cleaned loader source ex = map (\<lambda>(k, l). (k, map clean_desc l)) ?d"
      by (simp add: train_cleaned_def clean_descriptions_distinct [OF dist])
    from l have "(k, lines) \<in> set (train_filtered loader source ex all_features)"
      unfolding td(1) by (rule map_of_SomeD)
    then obtain cleaned where "(k, cleaned) \<in> set (train_cleaned loader source ex)"
      and lc: "lines = map (\<lambda>desc. ''startseq '' @ desc @ '' endseq'') cleaned"
      by (auto simp: train_filtered_def)
    then obtain captions where kc: "(k, captions) \<in> set ?d" and cc: "cleaned = map clean_desc captions"
      unfolding cl by auto
    from map_of_is_SomeI [OF dist kc] have mo: "map_of ?d k = Some captions" .
    from kc ne have cne: "captions \<noteq> []" by force
    from lc cc have len: "length lines = length captions" by simp
    from f mo cne l len t n
    show "\<exists>f captions lines ts.
                all_features k = Some f \<and>
                map_of (fst (load_descriptions loader source ex)) k = Some captions \<and> captions \<noteq> [] \<and>
                map_of (td_descriptions td) k = Some lines \<and> length lines = length captions \<and>
                image_triples (td_descriptions td) all_features (td_tokenizer td)
                  (td_max_length td) (td_vocab_size td) k = Inr ts \<and>
                ts \<noteq> []"
      by blast
  qed
qed

theorem train_model_empty_aborts_witness:
  "snd (train_model_data
          \<lparr>captions_filepath = ''captions.txt'', images_dir = ''images'', max_description_length = 0\<rparr>
          (FileLines [''image,caption'', ''img1.jpg,A cat sits.'', ''img2.jpg,A dog!'']) (\<lambda>_. True)
          (Map.empty :: string \<rightharpoonup> nat)) = None
   \<and> last (fst (train_model_data
          \<lparr>captions_filepath = ''captions.txt'', images_dir = ''images'', max_description_length = 0\<rparr>
          (FileLines [''image,caption'', ''img1.jpg,A cat sits.'', ''img2.jpg,A dog!'']) (\<lambda>_. True)
          (Map.empty :: string \<rightharpoonup> nat)))
       = ''No matching image features found for descriptions. Training aborted.''
   \<and> (\<exists>td. snd (train_model_data
          \<lparr>captions_filepath = ''captions.txt'', images_dir = ''images'', max_description_length = 0\<rparr>
          (FileLines [''image,caption'', ''img1.jpg,A cat sits.'', ''img2.jpg,A dog!'']) (\<lambda>_. True)
          [''img2.jpg'' \<mapsto> 20::nat]) = Some td
        \<and> td_image_ids td = [''img2.jpg''])"
proof -
  let ?L = "\<lparr>captions_filepath = ''captions.txt'', images_dir = ''images'', max_description_length = 0\<rparr>"
  let ?S = "FileLines [''image,caption'', ''img1.jpg,A cat sits.'', ''img2.jpg,A dog!'']"
  note a = train_model_empty_aborts [of ?L ?S "\<lambda>_. True" "Map.empty :: string \<rightharpoonup> nat"]
  note b = train_model_empty_aborts [of ?L ?S "\<lambda>_. True" "[''img2.jpg'' \<mapsto> 20::nat]"]
  from a have none: "snd (train_model_data ?L ?S (\<lambda>_. True) (Map.empty :: string \<rightharpoonup> nat)) = None"
    by simp
  with a have msg: "last (fst (train_model_data ?L ?S (\<lambda>_. True) (Map.empty :: string \<rightharpoonup> nat)))
       = ''No matching image features found for descriptions. Training aborted.''"
    by blast
  from b have "snd (train_model_data ?L ?S (\<lambda>_. True) [''img2.jpg'' \<mapsto> 20::nat]) \<noteq> None"
    unfolding example_load by simp
  then obtain td where td: "snd (train_model_data ?L ?S (\<lambda>_. True) [''img2.jpg'' \<mapsto> 20::nat]) = Some td"
    by auto
  with b have "td_image_ids td
      = filter (\<lambda>k. [''img2.jpg'' \<mapsto> 20::nat] k \<noteq> None) (map fst (fst (load_descriptions ?L ?S (\<lambda>_. True))))"
    by blast
  then have "td_image_ids td = [''img2.jpg'']" unfolding example_load by simp
  with none msg td show ?thesis by blast
qed

section \<open>The normaliser and the objects of its argument\<close>


lemma clean_list_loop_result:
  assumes "a < length h" and "h ! a = ListObject xs"
  shows "clean_list_loop a descs h = h[a := ListObject (xs @ map clean_desc descs)]"
  using assms
proof (induction descs arbitrary: h xs)
  case Nil
  then have "h[a := ListObject xs] = h" by (metis list_update_id)
  then show ?case by simp
next
  case (Cons desc descs)
  let ?h = "h[a := ListObject (xs @ [clean_desc desc])]"
  from Cons.prems have step: "list_append a (clean_desc desc) h = ?h"
    by (simp add: list_append_def obj_at_def)
  from Cons.prems have "a < length ?h" and "?h ! a = ListObject (xs @ [clean_desc desc])" by simp_all
  from Cons.IH [OF this] show ?case by (simp add: step)
qed

lemma map_read_dict_set:
  "map (read_item h) (dict_set k a acc) = dict_set k (object_iter (h ! a)) (map (read_item h) acc)"
  by (induction acc) (auto simp: read_item_def)

lemma read_item_cong:
  "\<forall>ka \<in> set items. h' ! snd ka = h ! snd ka \<Longrightarrow> map (read_item h') items = map (read_item h) items"
  by (induction items) (auto simp: read_item_def)

lemma dict_set_addresses:
  "ka \<in> set (dict_set k a acc) \<Longrightarrow> snd ka = a \<or> ka \<in> set acc"
  by (induction acc) (auto split: if_splits)


lemma clean_items_loop_step:
  assumes cd: "cd < length h" and dict: "h ! cd = DictObject acc" and a: "a < cd"
  shows "clean_items_loop cd ((k, a) # rest) h
           = clean_items_loop cd rest
               ((h @ [ListObject (map clean_desc (object_iter (h ! a)))])
                  [cd := DictObject (dict_set k (length h) acc)])"
proof -
  let ?h1 = "h @ [ListObject []]"
  let ?descs = "object_iter (h ! a)"
  let ?h2 = "h @ [ListObject (map clean_desc ?descs)]"
  from a cd have oa: "obj_at h a = Some (h ! a)" by (simp add: obj_at_def)
  have "clean_list_loop (length h) ?descs ?h1 = ?h1[length h := ListObject ([] @ map clean_desc ?descs)]"
    by (rule clean_list_loop_result) simp_all
  then have l: "clean_list_loop (length h) ?descs ?h1 = ?h2" by simp
  from cd dict have "obj_at ?h2 cd = Some (DictObject acc)"
    by (simp add: obj_at_def nth_append)
  then have d: "dict_store cd k (length h) ?h2 = ?h2[cd := DictObject (dict_set k (length h) acc)]"
    by (simp add: dict_store_def)
  show ?thesis by (simp add: oa alloc_def l d)
qed

lemma clean_items_loop_result:
  assumes "cd < length h" and "h ! cd = DictObject acc"
    and "\<forall>ka \<in> set items. snd ka < cd"
    and "\<forall>ka \<in> set acc. snd ka < length h \<and> snd ka \<noteq> cd"
  shows "\<exists>h' acc'.
           clean_items_loop cd items h = Inr h' \<and> length h \<le> length h' \<and>
           (\<forall>b < length h. b \<noteq> cd \<longrightarrow> h' ! b = h ! b) \<and>
           h' ! cd = DictObject acc' \<and>
           (\<forall>ka \<in> set acc'. snd ka < length h' \<and> snd ka \<noteq> cd) \<and>
           (\<forall>ka \<in> set acc'. ka \<in> set acc \<or> length h \<le> snd ka) \<and>
           map (read_item h') acc'
             = fold (\<lambda>(image_id, desc_list) c. dict_set image_id (map clean_desc desc_list) c)
                    (map (read_item h) items) (map (read_item h) acc)"
  using assms
proof (induction items arbitrary: h acc)
  case Nil
  then show ?case by auto
next
  case (Cons ka rest)
  obtain k a where ka: "ka = (k, a)" by (cases ka)
  note cd = Cons.prems(1) and dict = Cons.prems(2)
  from Cons.prems(3) have a: "a < cd" and rest: "\<forall>ka \<in> set rest. snd ka < cd" by (simp_all add: ka)
  note accs = Cons.prems(4)
  let ?descs = "object_iter (h ! a)"
  let ?acc3 = "dict_set k (length h) acc"
  let ?h3 = "(h @ [ListObject (map clean_desc ?descs)])[cd := DictObject ?acc3]"
  have step: "clean_items_loop cd (ka # rest) h = clean_items_loop cd rest ?h3"
    unfolding ka by (rule clean_items_loop_step [OF cd dict a])
  have len3: "length ?h3 = Suc (length h)" by simp
  from cd have cd3: "cd < length ?h3" by simp
  from cd have dict3: "?h3 ! cd = DictObject ?acc3" by (simp add: nth_append)
  have old3: "\<forall>b < length h. b \<noteq> cd \<longrightarrow> ?h3 ! b = h ! b" by (simp add: nth_append)
  from cd have new3: "?h3 ! length h = ListObject (map clean_desc ?descs)" by simp
  have accs3: "\<forall>ka \<in> set ?acc3. snd ka < length ?h3 \<and> snd ka \<noteq> cd"
  proof
    fix x assume "x \<in> set ?acc3"
    from dict_set_addresses [OF this] have "snd x = length h \<or> x \<in> set acc" .
    with accs cd show "snd x < length ?h3 \<and> snd x \<noteq> cd" by (auto simp: len3)
  qed
  from Cons.IH [OF cd3 dict3 rest accs3] obtain h' acc'
    where r: "clean_items_loop cd rest ?h3 = Inr h'"
      and l: "length ?h3 \<le> length h'"
      and f: "\<forall>b < length ?h3. b \<noteq> cd \<longrightarrow> h' ! b = ?h3 ! b"
      and d: "h' ! cd = DictObject acc'"
      and v: "\<forall>ka \<in> set acc'. snd ka < length h' \<and> snd ka \<noteq> cd"
      and n: "\<forall>ka \<in> set acc'. ka \<in> set ?acc3 \<or> length ?h3 \<le> snd ka"
      and m: "map (read_item h') acc'
                = fold (\<lambda>(image_id, desc_list) c. dict_set image_id (map clean_desc desc_list) c)
                       (map (read_item ?h3) rest) (map (read_item ?h3) ?acc3)"
    by blast
  from l have l': "length h \<le> length h'" by (simp add: len3)
  have f': "\<forall>b < length h. b \<noteq> cd \<longrightarrow> h' ! b = h ! b"
  proof (intro allI impI)
    fix b assume b: "b < length h" "b \<noteq> cd"
    then have "b < length ?h3" by (simp add: len3)
    with f b have "h' ! b = ?h3 ! b" by blast
    with old3 b show "h' ! b = h ! b" by simp
  qed
  have n': "\<forall>ka \<in> set acc'. ka \<in> set acc \<or> length h \<le> snd ka"
  proof
    fix x assume "x \<in> set acc'"
    with n have "x \<in> set ?acc3 \<or> length ?h3 \<le> snd x" by blast
    then show "x \<in> set acc \<or> length h \<le> snd x"
      using dict_set_addresses [of x k "length h" acc] by (auto simp: len3)
  qed
  have rest_eq: "map (read_item ?h3) rest = map (read_item h) rest"
  proof (rule read_item_cong, rule ballI)
    fix x assume "x \<in> set rest"
    with rest cd have "snd x < length h" "snd x \<noteq> cd" by auto
    with old3 show "?h3 ! snd x = h ! snd x" by blast
  qed
  have acc_eq: "map (read_item ?h3) acc = map (read_item h) acc"
  proof (rule read_item_cong, rule ballI)
    fix x assume "x \<in> set acc"
    with accs have "snd x < length h" "snd x \<noteq> cd" by auto
    with old3 show "?h3 ! snd x = h ! snd x" by blast
  qed
  have "map (read_item ?h3) ?acc3
          = dict_set k (object_iter (?h3 ! length h)) (map (read_item ?h3) acc)"
    by (rule map_read_dict_set)
  also have "\<dots> = dict_set k (map clean_desc ?descs) (map (read_item h) acc)"
    by (simp only: new3 acc_eq object_iter.simps)
  finally have acc3_eq: "map (read_item ?h3) ?acc3
          = dict_set k (map clean_desc ?descs) (map (read_item h) acc)" .
  have m': "map (read_item h') acc'
             = fold (\<lambda>(image_id, desc_list) c. dict_set image_id (map clean_desc desc_list) c)
                    (map (read_item h) (ka # rest)) (map (read_item h) acc)"
    unfolding m rest_eq acc3_eq by (simp add: ka read_item_def)
  from step r l' f' d v n' m' show ?case by simp
qed

text \<open>
  C6. \<open>clean_descriptions\<close> does not mutate its input. Called on a store \<open>h\<close> with the address
  of a dict whose values are in the store, it returns; every object that was in the store (the
  mapping, each of its caption lists, and with them the caption strings) is the same afterwards,
  so the argument still stands for the same mapping; the address returned is that of a new
  dict, whose values are new lists; and this new dict stands for the mapping that
  \<open>clean_descriptions\<close> computes from the argument's.
\<close>

theorem clean_descriptions_store_frame:
  assumes "read_mapping h descriptions = Some m"
  shows "\<exists>h' result items'.
           clean_descriptions_store h descriptions = Inr (h', result) \<and>
           take (length h) h' = h \<and>
           read_mapping h' descriptions = Some m \<and>
           length h \<le> result \<and>
           obj_at h' result = Some (DictObject items') \<and>
           (\<forall>ka \<in> set items'. length h \<le> snd ka) \<and>
           read_mapping h' result = Some (clean_descriptions m)"
proof -
  from assms obtain items
    where oa: "obj_at h descriptions = Some (DictObject items)"
      and valid: "list_all (\<lambda>ka. snd ka < length h) items"
      and m: "m = map (read_item h) items"
    by (auto simp: read_mapping_def split: option.splits py_object.splits if_splits)
  from oa have dl: "descriptions < length h" and dh: "h ! descriptions = DictObject items"
    by (auto simp: obj_at_def split: if_splits)
  let ?h1 = "h @ [DictObject []]"
  let ?cd = "length h"
  have run: "clean_descriptions_store h descriptions
               = (case clean_items_loop ?cd items ?h1 of
                    Inl e \<Rightarrow> Inl e
                  | Inr h' \<Rightarrow> Inr (h', ?cd))"
    by (simp add: clean_descriptions_store_def oa alloc_def)
  from valid have below: "\<forall>ka \<in> set items. snd ka < ?cd" by (simp add: list_all_iff)
  have "?cd < length ?h1" and "?h1 ! ?cd = DictObject []"
    and "\<forall>ka \<in> set ([] :: (string \<times> nat) list). snd ka < length ?h1 \<and> snd ka \<noteq> ?cd"
    by simp_all
  from clean_items_loop_result [OF this(1,2) below this(3)] obtain h' acc'
    where r: "clean_items_loop ?cd items ?h1 = Inr h'"
      and l: "length ?h1 \<le> length h'"
      and f: "\<forall>b < length ?h1. b \<noteq> ?cd \<longrightarrow> h' ! b = ?h1 ! b"
      and d: "h' ! ?cd = DictObject acc'"
      and v: "\<forall>ka \<in> set acc'. snd ka < length h' \<and> snd ka \<noteq> ?cd"
      and n: "\<forall>ka \<in> set acc'. ka \<in> set [] \<or> length ?h1 \<le> snd ka"
      and rd: "map (read_item h') acc'
                = fold (\<lambda>(image_id, desc_list) c. dict_set image_id (map clean_desc desc_list) c)
                       (map (read_item ?h1) items) (map (read_item ?h1) [])"
    by blast
  from l have len: "length h < length h'" by simp
  have same: "\<forall>b < length h. h' ! b = h ! b"
  proof (intro allI impI)
    fix b assume b: "b < length h"
    with f have "h' ! b = ?h1 ! b" by simp
    with b show "h' ! b = h ! b" by (simp add: nth_append)
  qed
  have frame: "take (length h) h' = h"
  proof (rule nth_equalityI)
    from len show "length (take (length h) h') = length h" by simp
  next
    fix i assume "i < length (take (length h) h')"
    with same show "take (length h) h' ! i = h ! i" by simp
  qed
  have items_h': "map (read_item h') items = map (read_item h) items"
    by (rule read_item_cong) (use below same in blast)
  have items_h1: "map (read_item ?h1) items = map (read_item h) items"
    by (rule read_item_cong) (use below in \<open>simp add: nth_append\<close>)
  from dl dh same len valid have arg: "read_mapping h' descriptions = Some m"
    by (auto simp: read_mapping_def obj_at_def list_all_iff m items_h')
  from len d have res: "obj_at h' ?cd = Some (DictObject acc')" by (simp add: obj_at_def)
  from n have fresh: "\<forall>ka \<in> set acc'. length h \<le> snd ka" by auto
  from rd have "map (read_item h') acc' = clean_descriptions m"
    by (simp add: items_h1 m clean_descriptions_def)
  with res v have new: "read_mapping h' ?cd = Some (clean_descriptions m)"
    by (simp add: read_mapping_def list_all_iff)
  from run r frame arg res fresh new show ?thesis by simp
qed

theorem clean_descriptions_store_frame_witness:
  "read_mapping [ListObject [''A Cat!'', ''Dog 2 runs.''], DictObject [(''img1.jpg'', 0), (''img2.jpg'', 0)]] 1
     = Some [(''img1.jpg'', [''A Cat!'', ''Dog 2 runs.'']), (''img2.jpg'', [''A Cat!'', ''Dog 2 runs.''])]
   \<and> (\<exists>h' result.
         clean_descriptions_store
           [ListObject [''A Cat!'', ''Dog 2 runs.''], DictObject [(''img1.jpg'', 0), (''img2.jpg'', 0)]] 1
           = Inr (h', result) \<and>
         take 2 h' = [ListObject [''A Cat!'', ''Dog 2 runs.''], DictObject [(''img1.jpg'', 0), (''img2.jpg'', 0)]] \<and>
         2 \<le> result \<and>
         read_mapping h' result
           = Some [(''img1.jpg'', [''a cat'', ''dog runs'']), (''img2.jpg'', [''a cat'', ''dog runs''])])"
proof -
  let ?h = "[ListObject [''A Cat!'', ''Dog 2 runs.''], DictObject [(''img1.jpg'', 0), (''img2.jpg'', 0)]]"
  let ?m = "[(''img1.jpg'', [''A Cat!'', ''Dog 2 runs.'']), (''img2.jpg'', [''A Cat!'', ''Dog 2 runs.''])]"
  have rm: "read_mapping ?h 1 = Some ?m"
    by (simp add: read_mapping_def obj_at_def read_item_def)
  have cl: "clean_descriptions ?m
              = [(''img1.jpg'', [''a cat'', ''dog runs'']), (''img2.jpg'', [''a cat'', ''dog runs''])]"
    by (simp add: clean_descriptions_def clean_desc_def str_split_def str_lower_def lower_char_def
        str_translate_def string_punctuation_def str_isalpha_def isalpha_char_def isspace_def
        char_of_nat_eq)
  from clean_descriptions_store_frame [OF rm] rm show ?thesis
    unfolding cl by (simp add: numeral_2_eq_2) blast
qed

end
